theory Spec2Isabelle
  imports Complex_Main "HOL-Library.Word"
begin

section \<open>Data model\<close>

text \<open>
  The server (\<^verbatim>\<open>src/index.js\<close>) keeps a registry \<^verbatim>\<open>compressionProgress\<close> and a map
  \<^verbatim>\<open>batchWorkers\<close> of worker handles. The worker (\<^verbatim>\<open>src/worker.js\<close>) reads uploaded
  files, appends entries to a zip archive piped into a file, and posts messages to the
  server. Both work on the same disk: a map from normalized paths, as \<^verbatim>\<open>path.join\<close> returns
  them, to the content of the file at that path.

  A file holds uploaded bytes or is an archive: the entries written so far, each with its
  name and the content it was read from, and whether the archive has been finalized.
\<close>

type_synonym bytes = "8 word list"

datatype content = Bytes bytes | Zip "(string \<times> content) list" bool

type_synonym filesystem = "string \<rightharpoonup> content"

record settings =
  maxWidth :: int
  maxHeight :: int
  quality :: int

text \<open>The image codec \<^verbatim>\<open>sharp\<close> is an external library: a parameter of the model, from the
  content of the source file to the produced buffer. \<open>None\<close> is a rejected promise.\<close>

type_synonym codec = "settings \<Rightarrow> content \<Rightarrow> bytes option"

text \<open>The three messages of the worker: \<^verbatim>\<open>{type: 'progress', completed}\<close>,
  \<^verbatim>\<open>{type: 'complete', zipPath, zipName}\<close> and \<^verbatim>\<open>{type: 'error', error}\<close>.\<close>

datatype msg = ProgressMsg nat | CompleteMsg string string | ErrorMsg string

datatype status = Processing | Complete | Error | Failed

record entry =
  total :: nat
  completed :: nat
  status :: status
  files :: "string list"
  zipName :: "string option"

record server =
  compressionProgress :: "string \<rightharpoonup> entry"
  batchWorkers :: "string set"
  disk :: filesystem

record workerData =
  wd_files :: "string list"
  wd_settings :: settings
  wd_batchId :: string
  wd_zipFolderName :: "string option"

text \<open>What happens after \<^verbatim>\<open>archive.finalize()\<close> has resolved: the output stream emits
  \<^verbatim>\<open>close\<close>, or a stream or the archive emits \<^verbatim>\<open>error\<close> (the handler of lines 86 to 88
  rethrows it outside every \<^verbatim>\<open>try\<close>), or the thread runs out of work without either.\<close>

datatype closing = Closes | LateError | Drains

text \<open>
  What the environment decides in one run of the worker.
  \<^item> \<open>openThrows\<close>: \<^verbatim>\<open>fsSync.createWriteStream\<close> throws at the call, with this message (a
    path that is refused when validated).
  \<^item> \<open>openFails\<close>: the output stream fails to open afterwards (\<^verbatim>\<open>ENOENT\<close>, \<^verbatim>\<open>EACCES\<close>): an
    \<^verbatim>\<open>error\<close> event of a stream that has no listener.
  \<^item> \<open>streamOpens i\<close>: the read stream created in iteration \<open>i\<close> of the loop (from 0) gets
    its file opened before the \<^verbatim>\<open>fs.unlink\<close> of line 76 removes it.
  \<^item> \<open>surfaces\<close>: how many further \<^verbatim>\<open>await\<close>s of the loop return before the uncaught
    exception of a failed stream ends the thread.
  \<^item> \<open>finalizeRejects\<close>: \<^verbatim>\<open>archive.finalize()\<close> rejects with this message.
  \<^item> \<open>afterFinalize\<close>: see \<open>closing\<close>.
\<close>

record env =
  openThrows :: "string option"
  openFails :: bool
  streamOpens :: "nat \<Rightarrow> bool"
  surfaces :: nat
  finalizeRejects :: "string option"
  afterFinalize :: closing

text \<open>The effects of a worker, in the order in which it performs them. An uncaught
  exception ends the thread: the host receives the \<^verbatim>\<open>error\<close> event of the worker and then
  its \<^verbatim>\<open>exit\<close> event with code 1.\<close>

datatype wevent =
    CreateWriteStream string
  | CreateReadStream string
  | ArchiveAppend string content
  | ConsoleWarn string
  | ConsoleError string
  | PostMessage msg
  | Unlink string
  | ArchiveFinalize
  | OutputClose
  | UncaughtException

text \<open>The state of a running worker: the disk, the effects so far, the counter of line
  17, the number of \<^verbatim>\<open>await\<close>s left before a pending stream failure ends the thread, and
  whether the thread has ended by an uncaught exception.\<close>

record wstate =
  w_disk :: filesystem
  w_trace :: "wevent list"
  completedCount :: nat
  w_fuse :: "nat option"
  w_dead :: bool

text \<open>An uncaught exception in a handler of the host process.\<close>

datatype host_error = TypeError

datatype response =
    BadRequest string
  | NotFound string
  | JsonBatchId string
  | JsonProgress "nat option" status nat nat
  | DownloadFile string string
  | JsonSuccess

record request =
  req_files :: "(string \<times> bytes) list option"
  req_maxWidth :: "int option"
  req_maxHeight :: "int option"
  req_quality :: "int option"
  req_zipFolderName :: "string option"

datatype event =
    Compress request string
  | Message string msg
  | WorkerError string
  | Exit string int
  | GetProgress string
  | Download string
  | Cleanup string
  | WorkerDisk filesystem

section \<open>JavaScript and Node helpers\<close>

text \<open>Truthiness of an optional string: \<^verbatim>\<open>undefined\<close> and \<^verbatim>\<open>''\<close> are falsy.\<close>

definition truthy :: "string option \<Rightarrow> bool" where
  "truthy x = (case x of None \<Rightarrow> False | Some s \<Rightarrow> s \<noteq> [])"

text \<open>\<^verbatim>\<open>parseInt(x) || d\<close>, with \<open>None\<close> for \<^verbatim>\<open>NaN\<close>: zero is falsy as well.\<close>

definition or_default :: "int option \<Rightarrow> int \<Rightarrow> int" where
  "or_default p d = (case p of None \<Rightarrow> d | Some n \<Rightarrow> if n = 0 then d else n)"

definition toLowerChar :: "char \<Rightarrow> char" where
  "toLowerChar c =
     (case map_of (zip ''ABCDEFGHIJKLMNOPQRSTUVWXYZ'' ''abcdefghijklmnopqrstuvwxyz'') c of
        Some l \<Rightarrow> l
      | None \<Rightarrow> c)"

definition toLowerCase :: "string \<Rightarrow> string" where
  "toLowerCase s = map toLowerChar s"

subsection \<open>Paths\<close>

text \<open>Node's \<^verbatim>\<open>path\<close> module on POSIX. \<^verbatim>\<open>path.normalize\<close> drops empty segments and \<^verbatim>\<open>.\<close>,
  lets \<^verbatim>\<open>..\<close> remove the segment before it (above the root of an absolute path it is
  dropped, at the start of a relative path it is kept), and keeps a trailing slash.
  \<^verbatim>\<open>path.join\<close> puts a slash between its non-empty arguments and normalizes.\<close>

fun splitSlash :: "string \<Rightarrow> string list" where
  "splitSlash [] = [] # []"
| "splitSlash (c # cs) =
     (if c = CHR ''/'' then [] # splitSlash cs
      else (case splitSlash cs of [] \<Rightarrow> [c] # [] | s # ss \<Rightarrow> (c # s) # ss))"

fun joinSlash :: "string list \<Rightarrow> string" where
  "joinSlash [] = []"
| "joinSlash [s] = s"
| "joinSlash (s # ss) = s @ CHR ''/'' # joinSlash ss"

fun normSegs :: "bool \<Rightarrow> string list \<Rightarrow> string list \<Rightarrow> string list" where
  "normSegs allowAboveRoot acc [] = rev acc"
| "normSegs allowAboveRoot acc (s # ss) =
     (if s = [] \<or> s = ''.'' then normSegs allowAboveRoot acc ss
      else if s = ''..'' then
        (case acc of
           [] \<Rightarrow> normSegs allowAboveRoot (if allowAboveRoot then [''..''] else []) ss
         | t # ts \<Rightarrow>
             if t = ''..'' then normSegs allowAboveRoot (if allowAboveRoot then s # acc else acc) ss
             else normSegs allowAboveRoot ts ss)
      else normSegs allowAboveRoot (s # acc) ss)"

definition normalize :: "string \<Rightarrow> string" where
  "normalize p =
     (if p = [] then ''.''
      else
        (let isAbsolute = (hd p = CHR ''/'');
             trailingSeparator = (last p = CHR ''/'');
             body = joinSlash (normSegs (\<not> isAbsolute) [] (splitSlash p))
         in if body = [] then (if isAbsolute then ''/'' else if trailingSeparator then ''./'' else ''.'')
            else (if isAbsolute then ''/'' else []) @ body @ (if trailingSeparator then ''/'' else [])))"

definition path_join :: "string \<Rightarrow> string \<Rightarrow> string" where
  "path_join a b =
     (if a = [] \<and> b = [] then ''.''
      else normalize (if a = [] then b else if b = [] then a else a @ CHR ''/'' # b))"

text \<open>The last component of a path, its extension (empty when the component has no dot,
  starts with its only dot, or is \<^verbatim>\<open>..\<close>) and \<^verbatim>\<open>path.parse(p).name\<close>, the component without
  the extension, for relative paths.\<close>

definition basename :: "string \<Rightarrow> string" where
  "basename p =
     rev (takeWhile (\<lambda>c. c \<noteq> CHR ''/'') (dropWhile (\<lambda>c. c = CHR ''/'') (rev p)))"

definition extname :: "string \<Rightarrow> string" where
  "extname p =
     (let base = basename p;
          suffix = takeWhile (\<lambda>c. c \<noteq> CHR ''.'') (rev base);
          stem = drop (Suc (length suffix)) (rev base)
      in if CHR ''.'' \<notin> set base \<or> stem = [] \<or> base = ''..'' then []
         else CHR ''.'' # rev suffix)"

definition parse_name :: "string \<Rightarrow> string" where
  "parse_name p = (let base = basename p in take (length base - length (extname p)) base)"

text \<open>\<^verbatim>\<open>__dirname\<close>, the directory of \<^verbatim>\<open>index.js\<close>, is some absolute path; lines 10 and 11
  derive the two directories from it.\<close>

definition dirname :: string where
  "dirname = ''/app''"

definition uploadDir :: string where
  "uploadDir = path_join dirname ''uploads''"

definition tempCompressedDir :: string where
  "tempCompressedDir = path_join dirname ''temp_compressed''"

subsection \<open>Numbers\<close>

text \<open>JavaScript numbers are IEEE 754 doubles. \<open>toDouble x\<close> is the double nearest to a
  rational \<open>x \<ge> 0\<close>, ties to the even significand of 53 bits (no overflow or subnormal
  occurs for quotients of file counts); division and multiplication are the exact
  operation followed by this rounding. \<^verbatim>\<open>Math.round\<close> gives the nearest integer, a tie
  going up.\<close>

function bits :: "int \<Rightarrow> int" where
  "bits k = (if k \<le> 0 then 0 else 1 + bits (k div 2))"
  by pat_completeness auto
termination
  by (relation "measure nat") auto

definition pow2 :: "int \<Rightarrow> rat" where
  "pow2 e = (if 0 \<le> e then 2 ^ nat e else 1 / 2 ^ nat (- e))"

definition ilog2 :: "rat \<Rightarrow> int" where
  "ilog2 x =
     (let (a, b) = quotient_of x;
          e0 = bits a - bits b
      in if pow2 e0 \<le> x then e0 else e0 - 1)"

definition roundHalfEven :: "rat \<Rightarrow> int" where
  "roundHalfEven q =
     (let f = \<lfloor>q\<rfloor>; r = q - of_int f
      in if r < 1 / 2 then f else if 1 / 2 < r then f + 1 else if even f then f else f + 1)"

definition toDouble :: "rat \<Rightarrow> rat" where
  "toDouble x =
     (if x \<le> 0 then 0
      else (let e = ilog2 x - 52 in of_int (roundHalfEven (x / pow2 e)) * pow2 e))"

definition mathRound :: "rat \<Rightarrow> int" where
  "mathRound x = \<lfloor>x + 1 / 2\<rfloor>"

text \<open>\<^verbatim>\<open>Math.round((completed / total) * 100)\<close>. Division by zero gives \<^verbatim>\<open>NaN\<close> or
  \<^verbatim>\<open>Infinity\<close>, which is \<open>None\<close> here.\<close>

definition progressPercent :: "nat \<Rightarrow> nat \<Rightarrow> nat option" where
  "progressPercent c t =
     (if t = 0 then None
      else Some (nat (mathRound (toDouble (toDouble (of_nat c / of_nat t) * 100)))))"

section \<open>The worker: \<^verbatim>\<open>src/worker.js\<close>\<close>

definition shouldCompress :: "string \<Rightarrow> bool" where
  "shouldCompress fileName =
     (let ext = toLowerCase (extname fileName)
      in ext = ''.jpg'' \<or> ext = ''.jpeg'' \<or> ext = ''.png'')"

text \<open>The name of the output archive, lines 22 to 24.\<close>

definition zipNameOf :: "string option \<Rightarrow> string \<Rightarrow> string" where
  "zipNameOf zipFolderName batchId =
     (case zipFolderName of
        None \<Rightarrow> ''compressed_images_'' @ batchId @ ''.zip''
      | Some s \<Rightarrow> if s \<noteq> [] then s @ ''.zip'' else ''compressed_images_'' @ batchId @ ''.zip'')"

subsection \<open>Effects and uncaught exceptions\<close>

text \<open>A thread that has ended performs nothing.\<close>

definition emit :: "wevent \<Rightarrow> wstate \<Rightarrow> wstate" where
  "emit e w = (if w_dead w then w else w\<lparr>w_trace := w_trace w @ [e]\<rparr>)"

definition onDisk :: "(filesystem \<Rightarrow> filesystem) \<Rightarrow> wstate \<Rightarrow> wstate" where
  "onDisk f w = (if w_dead w then w else w\<lparr>w_disk := f (w_disk w)\<rparr>)"

definition die :: "wstate \<Rightarrow> wstate" where
  "die w =
     (if w_dead w then w
      else w\<lparr>w_trace := w_trace w @ [UncaughtException], w_fuse := None, w_dead := True\<rparr>)"

text \<open>A stream fails with no \<^verbatim>\<open>error\<close> listener attached: an uncaught exception is
  pending, and surfaces at one of the next \<^verbatim>\<open>await\<close>s.\<close>

definition ignite :: "nat \<Rightarrow> wstate \<Rightarrow> wstate" where
  "ignite k w = (if w_dead w \<or> w_fuse w \<noteq> None then w else w\<lparr>w_fuse := Some k\<rparr>)"

text \<open>An \<^verbatim>\<open>await\<close>: the thread yields, and a pending exception may surface.\<close>

definition awaited :: "wstate \<Rightarrow> wstate" where
  "awaited w =
     (if w_dead w then w
      else (case w_fuse w of
              None \<Rightarrow> w
            | Some 0 \<Rightarrow> die w
            | Some (Suc k) \<Rightarrow> w\<lparr>w_fuse := Some k\<rparr>))"

subsection \<open>The steps of \<^verbatim>\<open>compressAndZip\<close>\<close>

text \<open>\<^verbatim>\<open>fsSync.createWriteStream(zipPath)\<close>, line 27, creates or truncates the file, unless
  the stream fails to open.\<close>

definition createWriteStream :: "env \<Rightarrow> string \<Rightarrow> wstate \<Rightarrow> wstate" where
  "createWriteStream ev zipPath w =
     (if openFails ev then ignite (surfaces ev) (emit (CreateWriteStream zipPath) w)
      else emit (CreateWriteStream zipPath) (onDisk (\<lambda>d. d(zipPath \<mapsto> Zip [] False)) w))"

text \<open>\<^verbatim>\<open>archive.append(data, {name})\<close>: the entry reaches the file the archive is piped to.\<close>

definition archiveAppend :: "string \<Rightarrow> string \<Rightarrow> content \<Rightarrow> wstate \<Rightarrow> wstate" where
  "archiveAppend zipPath name c w =
     emit (ArchiveAppend name c)
       (onDisk (\<lambda>d. case d zipPath of
                      Some (Zip es fin) \<Rightarrow> d(zipPath \<mapsto> Zip (es @ [(name, c)]) fin)
                    | _ \<Rightarrow> d) w)"

text \<open>\<^verbatim>\<open>sharp(originalPath).resize(...).webp(...).toBuffer()\<close>: reads the file and
  transforms it; rejects when the file is missing or the codec fails.\<close>

definition sharpToBuffer :: "codec \<Rightarrow> settings \<Rightarrow> filesystem \<Rightarrow> string \<Rightarrow> bytes option" where
  "sharpToBuffer sharp st d p = (case d p of None \<Rightarrow> None | Some src \<Rightarrow> sharp st src)"

text \<open>\<^verbatim>\<open>fs.unlink(originalPath).catch(console.error)\<close>, line 76.\<close>

definition unlinkLogged :: "string \<Rightarrow> wstate \<Rightarrow> wstate" where
  "unlinkLogged p w =
     (case w_disk w p of
        None \<Rightarrow> emit (ConsoleError p) w
      | Some c \<Rightarrow> emit (Unlink p) (onDisk (\<lambda>d. d(p := None)) w))"

text \<open>
  The per-file \<^verbatim>\<open>try\<close> of lines 36 to 72.

  An image is read and transformed under an \<^verbatim>\<open>await\<close>. A failure logs a warning and throws
  \<^verbatim>\<open>Sharp Read Failure\<close>, which the \<^verbatim>\<open>catch\<close> of line 69 logs: nothing is appended.

  Any other file is handed to the archive as a read stream (lines 64 to 66). Nothing in
  these lines throws: the stream opens its file later, in a race with the \<^verbatim>\<open>fs.unlink\<close> of
  line 76. If it opens the file, the content is appended; if the file is missing or has
  been removed first, the stream will emit \<^verbatim>\<open>error\<close>, which no listener receives: an
  uncaught exception is pending.
\<close>

definition tryFile :: "codec \<Rightarrow> env \<Rightarrow> settings \<Rightarrow> string \<Rightarrow> string \<Rightarrow> wstate \<Rightarrow> wstate" where
  "tryFile sharp ev st zipPath originalname w =
     (let originalPath = path_join uploadDir originalname
      in if shouldCompress originalname then
           (let w0 = awaited w
            in case sharpToBuffer sharp st (w_disk w0) originalPath of
                 Some compressedBuffer \<Rightarrow>
                   archiveAppend zipPath (parse_name originalname @ ''.webp'') (Bytes compressedBuffer) w0
               | None \<Rightarrow> emit (ConsoleError originalname) (emit (ConsoleWarn originalname) w0))
         else
           (let w0 = emit (CreateReadStream originalPath) w
            in case (if streamOpens ev (completedCount w) then w_disk w originalPath else None) of
                 Some fileContent \<Rightarrow> archiveAppend zipPath originalname fileContent w0
               | None \<Rightarrow> ignite (surfaces ev) w0))"

text \<open>One iteration of the loop of line 32: the per-file \<^verbatim>\<open>try\<close>, then lines 74 to 76; the
  \<^verbatim>\<open>await\<close> of line 76 ends the iteration.\<close>

definition processFile :: "codec \<Rightarrow> env \<Rightarrow> settings \<Rightarrow> string \<Rightarrow> string \<Rightarrow> wstate \<Rightarrow> wstate" where
  "processFile sharp ev st zipPath originalname w =
     (let w1 = tryFile sharp ev st zipPath originalname w;
          w2 = (if w_dead w1 then w1 else w1\<lparr>completedCount := completedCount w1 + 1\<rparr>);
          w3 = emit (PostMessage (ProgressMsg (completedCount w2))) w2;
          w4 = unlinkLogged (path_join uploadDir originalname) w3
      in awaited w4)"

fun processFiles :: "codec \<Rightarrow> env \<Rightarrow> settings \<Rightarrow> string \<Rightarrow> string list \<Rightarrow> wstate \<Rightarrow> wstate" where
  "processFiles sharp ev st zipPath [] w = w"
| "processFiles sharp ev st zipPath (f # fs) w =
     processFiles sharp ev st zipPath fs (processFile sharp ev st zipPath f w)"

definition finalize :: "string \<Rightarrow> wstate \<Rightarrow> wstate" where
  "finalize zipPath w =
     emit ArchiveFinalize
       (onDisk (\<lambda>d. case d zipPath of
                      Some (Zip es fin) \<Rightarrow> d(zipPath \<mapsto> Zip es True)
                    | _ \<Rightarrow> d) w)"

definition startWorker :: "filesystem \<Rightarrow> wstate" where
  "startWorker d = \<lparr>w_disk = d, w_trace = [], completedCount = 0, w_fuse = None, w_dead = False\<rparr>"

text \<open>The worker as far as the first \<open>k\<close> iterations of its loop: what a terminated worker
  leaves behind.\<close>

definition workerAfter :: "codec \<Rightarrow> env \<Rightarrow> workerData \<Rightarrow> nat \<Rightarrow> filesystem \<Rightarrow> wstate" where
  "workerAfter sharp ev wd k d =
     (let zipPath = path_join tempCompressedDir (zipNameOf (wd_zipFolderName wd) (wd_batchId wd))
      in processFiles sharp ev (wd_settings wd) zipPath (take k (wd_files wd))
           (createWriteStream ev zipPath (startWorker d)))"

text \<open>
  \<^verbatim>\<open>compressAndZip\<close>. An exception thrown inside the outer \<^verbatim>\<open>try\<close> posts an error message.
  A pending stream failure surfaces at the latest while the worker awaits
  \<^verbatim>\<open>archive.finalize()\<close>. The complete message is posted by the \<^verbatim>\<open>close\<close> handler of the
  output stream, which is registered after that \<^verbatim>\<open>await\<close>.
\<close>

definition compressAndZip :: "codec \<Rightarrow> env \<Rightarrow> workerData \<Rightarrow> filesystem \<Rightarrow> wstate" where
  "compressAndZip sharp ev wd d =
     (let zn = zipNameOf (wd_zipFolderName wd) (wd_batchId wd);
          zipPath = path_join tempCompressedDir zn
      in case openThrows ev of
           Some e \<Rightarrow> emit (PostMessage (ErrorMsg e)) (startWorker d)
         | None \<Rightarrow>
             (let w1 = createWriteStream ev zipPath (startWorker d);
                  w2 = processFiles sharp ev (wd_settings wd) zipPath (wd_files wd) w1;
                  w3 = (if w_fuse w2 \<noteq> None then die w2 else w2)
              in if w_dead w3 then w3
                 else (case finalizeRejects ev of
                         Some e \<Rightarrow> emit (PostMessage (ErrorMsg e)) w3
                       | None \<Rightarrow>
                           (let w4 = finalize zipPath w3
                            in case afterFinalize ev of
                                 Closes \<Rightarrow> emit (PostMessage (CompleteMsg zipPath zn)) (emit OutputClose w4)
                               | LateError \<Rightarrow> die w4
                               | Drains \<Rightarrow> w4))))"

text \<open>The messages of a trace, in the order posted.\<close>

fun signals :: "wevent list \<Rightarrow> msg list" where
  "signals [] = []"
| "signals (PostMessage m # es) = m # signals es"
| "signals (_ # es) = signals es"

text \<open>What the host receives from the thread of batch \<open>b\<close>: its messages, then the
  \<^verbatim>\<open>error\<close> event and exit code 1 if it ended by an uncaught exception, and exit code 0
  otherwise.\<close>

definition hostEvents :: "string \<Rightarrow> wstate \<Rightarrow> event list" where
  "hostEvents b w =
     map (Message b) (signals (w_trace w))
       @ (if w_dead w then [WorkerError b, Exit b 1] else [Exit b 0])"

text \<open>The events that the loop can perform.\<close>

fun loopEvent :: "wevent \<Rightarrow> bool" where
  "loopEvent (CreateReadStream p) = True"
| "loopEvent (ArchiveAppend n c) = True"
| "loopEvent (ConsoleWarn n) = True"
| "loopEvent (ConsoleError n) = True"
| "loopEvent (PostMessage (ProgressMsg c)) = True"
| "loopEvent (Unlink p) = True"
| "loopEvent UncaughtException = True"
| "loopEvent _ = False"

fun isProgress :: "msg \<Rightarrow> bool" where
  "isProgress (ProgressMsg c) = True"
| "isProgress _ = False"

section \<open>The server: \<^verbatim>\<open>src/index.js\<close>\<close>

text \<open>\<^verbatim>\<open>multer.diskStorage\<close> of lines 16 to 19: each upload is written into the upload
  directory under its original name.\<close>

fun multerStore :: "(string \<times> bytes) list \<Rightarrow> filesystem \<Rightarrow> filesystem" where
  "multerStore [] d = d"
| "multerStore ((n, b) # fs) d = multerStore fs (d(path_join uploadDir n \<mapsto> Bytes b))"

definition settingsOf :: "request \<Rightarrow> settings" where
  "settingsOf req =
     \<lparr>maxWidth = or_default (req_maxWidth req) 1280,
      maxHeight = or_default (req_maxHeight req) 1280,
      quality = or_default (req_quality req) 80\<rparr>"

definition workerDataOf :: "request \<Rightarrow> string \<Rightarrow> workerData" where
  "workerDataOf req batchId =
     \<lparr>wd_files = (case req_files req of None \<Rightarrow> [] | Some ups \<Rightarrow> map fst ups),
      wd_settings = settingsOf req,
      wd_batchId = batchId,
      wd_zipFolderName = req_zipFolderName req\<rparr>"

text \<open>\<^verbatim>\<open>POST /compress\<close>, lines 98 to 175; the batch identifier is what line 107 generated.
  The upload middleware has stored the files before the handler runs.\<close>

definition compress :: "request \<Rightarrow> string \<Rightarrow> server \<Rightarrow> response \<times> server" where
  "compress req batchId s =
     (case req_files req of
        None \<Rightarrow> (BadRequest ''No files uploaded.'', s)
      | Some ups \<Rightarrow>
          if length ups = 0 then (BadRequest ''No files uploaded.'', s)
          else
            (JsonBatchId batchId,
             s\<lparr>disk := multerStore ups (disk s),
               compressionProgress := (compressionProgress s)(batchId \<mapsto>
                 \<lparr>total = length ups, completed = 0, status = Processing,
                  files = map fst ups, zipName = None\<rparr>),
               batchWorkers := insert batchId (batchWorkers s)\<rparr>))"

text \<open>\<^verbatim>\<open>cleanupBatchUploadedFiles\<close>, lines 178 to 193.\<close>

fun unlinkAll :: "string list \<Rightarrow> filesystem \<Rightarrow> filesystem" where
  "unlinkAll [] d = d"
| "unlinkAll (filename # fs) d = unlinkAll fs (d(path_join uploadDir filename := None))"

definition cleanupBatchUploadedFiles :: "string \<Rightarrow> server \<Rightarrow> server" where
  "cleanupBatchUploadedFiles batchId s =
     (case compressionProgress s batchId of
        None \<Rightarrow> s
      | Some batchData \<Rightarrow> s\<lparr>disk := unlinkAll (files batchData) (disk s)\<rparr>)"

definition setStatus :: "string \<Rightarrow> status \<Rightarrow> server \<Rightarrow> server" where
  "setStatus batchId st s =
     (case compressionProgress s batchId of
        None \<Rightarrow> s
      | Some e \<Rightarrow> s\<lparr>compressionProgress := (compressionProgress s)(batchId \<mapsto> e\<lparr>status := st\<rparr>)\<rparr>)"

text \<open>\<^verbatim>\<open>worker.on('message')\<close>, lines 136 to 152. Writing a field of a missing entry
  throws a \<^verbatim>\<open>TypeError\<close>.\<close>

definition on_message :: "string \<Rightarrow> msg \<Rightarrow> server \<Rightarrow> host_error + server" where
  "on_message batchId m s =
     (case compressionProgress s batchId of
        None \<Rightarrow> Inl TypeError
      | Some e \<Rightarrow>
          (case m of
             ProgressMsg c \<Rightarrow>
               Inr (s\<lparr>compressionProgress := (compressionProgress s)(batchId \<mapsto> e\<lparr>completed := c\<rparr>)\<rparr>)
           | CompleteMsg zp zn \<Rightarrow>
               Inr (s\<lparr>compressionProgress :=
                        (compressionProgress s)(batchId \<mapsto> e\<lparr>status := Complete, zipName := Some zn\<rparr>),
                      batchWorkers := batchWorkers s - {batchId}\<rparr>)
           | ErrorMsg err \<Rightarrow>
               Inr ((cleanupBatchUploadedFiles batchId (setStatus batchId Error s))
                      \<lparr>batchWorkers := batchWorkers s - {batchId}\<rparr>)))"

text \<open>\<^verbatim>\<open>worker.on('error')\<close>, lines 154 to 161.\<close>

definition on_error :: "string \<Rightarrow> server \<Rightarrow> host_error + server" where
  "on_error batchId s =
     (case compressionProgress s batchId of
        None \<Rightarrow> Inl TypeError
      | Some e \<Rightarrow>
          Inr ((cleanupBatchUploadedFiles batchId (setStatus batchId Error s))
                 \<lparr>batchWorkers := batchWorkers s - {batchId}\<rparr>))"

text \<open>\<^verbatim>\<open>worker.on('exit')\<close>, lines 163 to 172.\<close>

definition on_exit :: "string \<Rightarrow> int \<Rightarrow> server \<Rightarrow> server" where
  "on_exit batchId code s =
     (let s1 =
        (case compressionProgress s batchId of
           None \<Rightarrow> s
         | Some e \<Rightarrow>
             if code \<noteq> 0 \<and> status e \<noteq> Error
             then cleanupBatchUploadedFiles batchId (setStatus batchId Failed s)
             else s)
      in s1\<lparr>batchWorkers := batchWorkers s1 - {batchId}\<rparr>)"

text \<open>\<^verbatim>\<open>GET /progress/:batchId\<close>, lines 195 to 211.\<close>

definition progress :: "string \<Rightarrow> server \<Rightarrow> response" where
  "progress batchId s =
     (case compressionProgress s batchId of
        None \<Rightarrow> NotFound ''Batch ID not found.''
      | Some progressData \<Rightarrow>
          JsonProgress (progressPercent (completed progressData) (total progressData))
            (status progressData) (total progressData) (completed progressData))"

text \<open>\<^verbatim>\<open>GET /download/:batchId\<close>, lines 213 to 241. The callback of \<^verbatim>\<open>res.download\<close> runs
  when the transfer has ended, with or without an error, and does the same in both
  cases.\<close>

definition download :: "string \<Rightarrow> server \<Rightarrow> response \<times> server" where
  "download batchId s =
     (case compressionProgress s batchId of
        None \<Rightarrow> (NotFound ''Zip file not found or compression not complete.'', s)
      | Some progressData \<Rightarrow>
          if status progressData \<noteq> Complete \<or> \<not> truthy (zipName progressData)
          then (NotFound ''Zip file not found or compression not complete.'', s)
          else
            (case zipName progressData of
               None \<Rightarrow> (NotFound ''Zip file not found or compression not complete.'', s)
             | Some finalZipName \<Rightarrow>
                 (let zipPath = path_join tempCompressedDir finalZipName
                  in if disk s zipPath = None
                     then (NotFound ''Zip file not found on server disk.'', s)
                     else
                       (DownloadFile zipPath finalZipName,
                        s\<lparr>compressionProgress := (compressionProgress s)(batchId := None),
                          disk := (disk s)(zipPath := None)\<rparr>))))"

text \<open>\<^verbatim>\<open>POST /cleanup/:batchId\<close>, lines 244 to 278. \<^verbatim>\<open>worker.terminate()\<close> stops the
  thread: the worker takes no further step.\<close>

definition cleanup :: "string \<Rightarrow> server \<Rightarrow> response \<times> server" where
  "cleanup batchId s =
     (case compressionProgress s batchId of
        None \<Rightarrow> (NotFound ''Batch ID not found.'', s)
      | Some progressData \<Rightarrow>
          (let s1 = s\<lparr>batchWorkers := batchWorkers s - {batchId}\<rparr>;
               s2 = cleanupBatchUploadedFiles batchId s1;
               s3 = (case zipName progressData of
                       None \<Rightarrow> s2
                     | Some zn \<Rightarrow>
                         if zn \<noteq> []
                         then s2\<lparr>disk := (disk s2)(path_join tempCompressedDir zn := None)\<rparr>
                         else s2)
           in (JsonSuccess, s3\<lparr>compressionProgress := (compressionProgress s3)(batchId := None)\<rparr>)))"

text \<open>The server after \<^verbatim>\<open>cleanupOnStart\<close>: nothing registered, both directories empty.\<close>

definition initial :: server where
  "initial = \<lparr>compressionProgress = Map.empty, batchWorkers = {}, disk = Map.empty\<rparr>"

text \<open>One event of the host process. \<open>WorkerDisk\<close> is what the workers have made of the
  disk.\<close>

fun step :: "event \<Rightarrow> server \<Rightarrow> host_error + server" where
  "step (Compress req b) s = Inr (snd (compress req b s))"
| "step (Message b m) s = on_message b m s"
| "step (WorkerError b) s = on_error b s"
| "step (Exit b code) s = Inr (on_exit b code s)"
| "step (GetProgress b) s = Inr s"
| "step (Download b) s = Inr (snd (download b s))"
| "step (Cleanup b) s = Inr (snd (cleanup b s))"
| "step (WorkerDisk d) s = Inr (s\<lparr>disk := d\<rparr>)"

fun run :: "event list \<Rightarrow> server \<Rightarrow> host_error + server" where
  "run [] s = Inr s"
| "run (e # es) s = (case step e s of Inl err \<Rightarrow> Inl err | Inr s' \<Rightarrow> run es s')"

text \<open>The disk of the server as a worker leaves it.\<close>

definition syncDisk :: "wstate \<Rightarrow> server \<Rightarrow> server" where
  "syncDisk w s = s\<lparr>disk := w_disk w\<rparr>"

text \<open>The status recorded for a batch after a handler has run, if the host survived.\<close>

definition statusOf :: "string \<Rightarrow> host_error + server \<Rightarrow> status option" where
  "statusOf b r = (case r of Inl err \<Rightarrow> None | Inr s \<Rightarrow> map_option status (compressionProgress s b))"

text \<open>What holds of a registry entry from its creation on: its total is the number of
  its files, and is not zero.\<close>

definition entryOk :: "entry \<Rightarrow> bool" where
  "entryOk e = (total e = length (files e) \<and> 1 \<le> total e)"

text \<open>The messages of one batch among the events of the host, in the order delivered, and
  the events that submit a batch under a given identifier.\<close>

fun batchMessages :: "string \<Rightarrow> event list \<Rightarrow> msg list" where
  "batchMessages b [] = []"
| "batchMessages b (Message b' m # evs) =
     (if b' = b then m # batchMessages b evs else batchMessages b evs)"
| "batchMessages b (_ # evs) = batchMessages b evs"

fun submits :: "string \<Rightarrow> event \<Rightarrow> bool" where
  "submits b (Compress req b') = (b' = b)"
| "submits b _ = False"

text \<open>The counts carried by the progress messages of a list of messages.\<close>

fun progressValues :: "msg list \<Rightarrow> nat list" where
  "progressValues [] = []"
| "progressValues (ProgressMsg c # ms) = c # progressValues ms"
| "progressValues (_ # ms) = progressValues ms"


text \<open>The events that the thread of a batch causes in the host, and those among a list
  of events.\<close>

fun fromWorker :: "string \<Rightarrow> event \<Rightarrow> bool" where
  "fromWorker b (Message b' m) = (b' = b)"
| "fromWorker b (WorkerError b') = (b' = b)"
| "fromWorker b (Exit b' code) = (b' = b)"
| "fromWorker b _ = False"

definition workerEvents :: "string \<Rightarrow> event list \<Rightarrow> event list" where
  "workerEvents b evs = filter (fromWorker b) evs"

text \<open>How a part of the loop takes the worker from one state to another: it appends
  events of the loop, the messages among them are the progress messages for the counts
  passed, a thread that has ended stays as it is, and the thread has ended afterwards
  exactly if it had before or an uncaught exception is among the events.\<close>

definition loopStep :: "wstate \<Rightarrow> wstate \<Rightarrow> bool" where
  "loopStep w w' =
     (completedCount w \<le> completedCount w'
      \<and> (w_dead w \<longrightarrow> w' = w)
      \<and> (\<exists>es. w_trace w' = w_trace w @ es
            \<and> (\<forall>e \<in> set es. loopEvent e)
            \<and> signals es = map ProgressMsg [Suc (completedCount w) ..< Suc (completedCount w')]
            \<and> (w_dead w' \<longleftrightarrow> w_dead w \<or> UncaughtException \<in> set es)))"

text \<open>What a run performs after its loop, unless the thread has ended by then: an error
  message if finalizing rejects, and otherwise finalizing and what follows it.\<close>

definition ending :: "env \<Rightarrow> string \<Rightarrow> string \<Rightarrow> wevent list" where
  "ending ev zipPath zn =
     (case finalizeRejects ev of
        Some e \<Rightarrow> [PostMessage (ErrorMsg e)]
      | None \<Rightarrow> ArchiveFinalize #
          (case afterFinalize ev of
             Closes \<Rightarrow> [OutputClose, PostMessage (CompleteMsg zipPath zn)]
           | LateError \<Rightarrow> [UncaughtException]
           | Drains \<Rightarrow> []))"

text \<open>Progress messages, which the host may receive late, and the other events of a
  worker among a list of events.\<close>

fun isProgressEvent :: "event \<Rightarrow> bool" where
  "isProgressEvent (Message b (ProgressMsg c)) = True"
| "isProgressEvent _ = False"

definition decisive :: "event list \<Rightarrow> event list" where
  "decisive evs = filter (\<lambda>x. \<not> isProgressEvent x) evs"

text \<open>The status that the handlers of lines 136 to 172 record for a batch, from the
  events of its worker alone.\<close>

fun track :: "status \<Rightarrow> event list \<Rightarrow> status" where
  "track st [] = st"
| "track st (Message b (ProgressMsg c) # evs) = track st evs"
| "track st (Message b (CompleteMsg zp zn) # evs) = track Complete evs"
| "track st (Message b (ErrorMsg err) # evs) = track Error evs"
| "track st (WorkerError b # evs) = track Error evs"
| "track st (Exit b code # evs) = track (if code \<noteq> 0 \<and> st \<noteq> Error then Failed else st) evs"
| "track st (_ # evs) = track st evs"






section \<open>Sample inputs\<close>

definition sampleRequest :: request where
  "sampleRequest =
     \<lparr>req_files = Some [(''a.png'', [1, 2, 3]), (''b.txt'', [4])],
      req_maxWidth = None, req_maxHeight = None, req_quality = None,
      req_zipFolderName = None\<rparr>"

text \<open>A batch of two images, and a batch of one file that is not an image.\<close>

definition imagesRequest :: request where
  "imagesRequest =
     \<lparr>req_files = Some [(''a.png'', [1, 2, 3]), (''c.jpg'', [5, 6])],
      req_maxWidth = None, req_maxHeight = None, req_quality = None,
      req_zipFolderName = None\<rparr>"

definition textRequest :: request where
  "textRequest =
     \<lparr>req_files = Some [(''b.txt'', [4])],
      req_maxWidth = None, req_maxHeight = None, req_quality = None,
      req_zipFolderName = None\<rparr>"

text \<open>A batch of two files that are not images and have the same name, as a folder with
  subfolders can contain them.\<close>

definition sameNameRequest :: request where
  "sameNameRequest =
     \<lparr>req_files = Some [(''b.txt'', [4]), (''b.txt'', [5])],
      req_maxWidth = None, req_maxHeight = None, req_quality = None,
      req_zipFolderName = None\<rparr>"

text \<open>Two images submitted with a label, and with a label that names a path.\<close>

definition vacationRequest :: request where
  "vacationRequest = imagesRequest\<lparr>req_zipFolderName := Some ''vacation''\<rparr>"

definition dotsRequest :: request where
  "dotsRequest = imagesRequest\<lparr>req_zipFolderName := Some ''../x''\<rparr>"

text \<open>A server holding one batch that is complete, with its archive on disk.\<close>

definition sampleComplete :: server where
  "sampleComplete =
     \<lparr>compressionProgress =
        [''b1'' \<mapsto> \<lparr>total = 2, completed = 2, status = Complete,
                    files = [''a.png'', ''c.jpg''],
                    zipName = Some ''compressed_images_b1.zip''\<rparr>],
      batchWorkers = {},
      disk =
        [''/app/temp_compressed/compressed_images_b1.zip'' \<mapsto>
           Zip [(''a.webp'', Bytes [1]), (''c.webp'', Bytes [5])] True]\<rparr>"

text \<open>A codec that fails on sources shorter than two bytes and otherwise keeps the first
  byte, and one that always fails.\<close>

definition sampleCodec :: codec where
  "sampleCodec st src =
     (case src of
        Bytes b \<Rightarrow> if length b < 2 then None else Some (take 1 b)
      | Zip es fin \<Rightarrow> None)"

definition failingCodec :: codec where
  "failingCodec st src = None"

text \<open>Environments: nothing fails and the output closes; finalizing rejects; the output
  stream fails to open; every read stream loses the race against the unlink.\<close>

definition envOk :: env where
  "envOk = \<lparr>openThrows = None, openFails = False, streamOpens = (\<lambda>i. True), surfaces = 0,
            finalizeRejects = None, afterFinalize = Closes\<rparr>"

definition envFinalizeFails :: env where
  "envFinalizeFails = envOk\<lparr>finalizeRejects := Some ''disk full''\<rparr>"

definition envOpenFails :: env where
  "envOpenFails = envOk\<lparr>openFails := True\<rparr>"

definition envStreamFails :: env where
  "envStreamFails = envOk\<lparr>streamOpens := (\<lambda>i. False)\<rparr>"

text \<open>A batch of two files whose worker has opened the archive and handled the first
  file, the progress signal of which has been delivered.\<close>

definition midBatch :: server where
  "midBatch =
     (let s1 = snd (compress sampleRequest ''b1'' initial);
          w = workerAfter sampleCodec envOk (workerDataOf sampleRequest ''b1'') 1 (disk s1)
      in case on_message ''b1'' (ProgressMsg 1) (syncDisk w s1) of
           Inr s \<Rightarrow> s
         | Inl err \<Rightarrow> s1)"

text \<open>Two batches that each upload a file named \<^verbatim>\<open>a.png\<close>, submitted one after the other.\<close>

definition requestA :: request where
  "requestA =
     \<lparr>req_files = Some [(''a.png'', [1, 2, 3])],
      req_maxWidth = None, req_maxHeight = None, req_quality = None,
      req_zipFolderName = None\<rparr>"





section \<open>Traces of the worker\<close>

lemma signals_append: "signals (xs @ ys) = signals xs @ signals ys"
  by (induction xs rule: signals.induct) auto

lemma loopStep_refl: "loopStep w w"
  by (simp add: loopStep_def)

lemma loopStep_trans:
  assumes "loopStep w w1" and "loopStep w1 w2"
  shows "loopStep w w2"
proof -
  from assms(1) obtain es1 where a: "completedCount w \<le> completedCount w1" "w_dead w \<longrightarrow> w1 = w"
      "w_trace w1 = w_trace w @ es1" "\<forall>e \<in> set es1. loopEvent e"
      "signals es1 = map ProgressMsg [Suc (completedCount w) ..< Suc (completedCount w1)]"
      "w_dead w1 \<longleftrightarrow> w_dead w \<or> UncaughtException \<in> set es1"
    unfolding loopStep_def by blast
  from assms(2) obtain es2 where b: "completedCount w1 \<le> completedCount w2" "w_dead w1 \<longrightarrow> w2 = w1"
      "w_trace w2 = w_trace w1 @ es2" "\<forall>e \<in> set es2. loopEvent e"
      "signals es2 = map ProgressMsg [Suc (completedCount w1) ..< Suc (completedCount w2)]"
      "w_dead w2 \<longleftrightarrow> w_dead w1 \<or> UncaughtException \<in> set es2"
    unfolding loopStep_def by blast
  have r: "[Suc (completedCount w) ..< Suc (completedCount w2)]
      = [Suc (completedCount w) ..< Suc (completedCount w1)] @ [Suc (completedCount w1) ..< Suc (completedCount w2)]"
  proof -
    obtain k where k: "Suc (completedCount w2) = Suc (completedCount w1) + k"
      using b(1) by (metis Suc_le_mono le_iff_add)
    have "Suc (completedCount w) \<le> Suc (completedCount w1)" using a(1) by simp
    from upt_add_eq_append [OF this, of k] show ?thesis by (simp only: k)
  qed
  have t: "w_trace w2 = w_trace w @ (es1 @ es2)"
    by (simp add: a(3) b(3))
  have l: "\<forall>e \<in> set (es1 @ es2). loopEvent e"
    using a(4) b(4) by auto
  have s: "signals (es1 @ es2) = map ProgressMsg [Suc (completedCount w) ..< Suc (completedCount w2)]"
    by (simp only: signals_append a(5) b(5) r map_append)
  have d: "w_dead w2 \<longleftrightarrow> w_dead w \<or> UncaughtException \<in> set (es1 @ es2)"
    using a(6) b(6) by auto
  have k: "w_dead w \<longrightarrow> w2 = w"
    using a(2) b(2) by auto
  have c: "completedCount w \<le> completedCount w2"
    using a(1) b(1) by simp
  show ?thesis
    unfolding loopStep_def using c k t l s d by blast
qed

lemma loopStep_silent:
  assumes "completedCount w' = completedCount w" and "w_dead w \<longrightarrow> w' = w"
    and "w_trace w' = w_trace w @ es" and "\<forall>e \<in> set es. loopEvent e" and "signals es = []"
    and "w_dead w' \<longleftrightarrow> w_dead w \<or> UncaughtException \<in> set es"
  shows "loopStep w w'"
  unfolding loopStep_def using assms by auto

lemma loopStep_emit:
  assumes "loopEvent e" and "signals [e] = []" and "e \<noteq> UncaughtException"
  shows "loopStep w (emit e w)"
proof (cases "w_dead w")
  case True
  then show ?thesis by (simp add: emit_def loopStep_refl)
next
  case False
  show ?thesis
    by (rule loopStep_silent [where es = "[e]"]) (use False assms in \<open>simp_all add: emit_def\<close>)
qed

lemma loopStep_onDisk: "loopStep w (onDisk f w)"
  by (rule loopStep_silent [where es = "[]"]) (simp_all add: onDisk_def)

lemma loopStep_die: "loopStep w (die w)"
proof (cases "w_dead w")
  case True
  then show ?thesis by (simp add: die_def loopStep_refl)
next
  case False
  show ?thesis
    by (rule loopStep_silent [where es = "[UncaughtException]"]) (use False in \<open>simp_all add: die_def\<close>)
qed

lemma loopStep_ignite: "loopStep w (ignite k w)"
  by (rule loopStep_silent [where es = "[]"]) (auto simp: ignite_def)

lemma loopStep_awaited: "loopStep w (awaited w)"
proof (cases "w_dead w")
  case True
  then show ?thesis by (simp add: awaited_def loopStep_refl)
next
  case False
  show ?thesis
  proof (cases "w_fuse w")
    case None
    with False show ?thesis by (simp add: awaited_def loopStep_refl)
  next
    case (Some k)
    show ?thesis
    proof (cases k)
      case 0
      with False Some have "awaited w = die w" by (simp add: awaited_def)
      then show ?thesis by (simp add: loopStep_die)
    next
      case (Suc j)
      show ?thesis
        by (rule loopStep_silent [where es = "[]"]) (use False Some Suc in \<open>simp_all add: awaited_def\<close>)
    qed
  qed
qed

lemma loopStep_archiveAppend: "loopStep w (archiveAppend zipPath name c w)"
  unfolding archiveAppend_def
  by (rule loopStep_trans [OF loopStep_onDisk loopStep_emit]) simp_all

lemma loopStep_unlinkLogged: "loopStep w (unlinkLogged p w)"
proof (cases "w_disk w p")
  case None
  then show ?thesis by (simp add: unlinkLogged_def loopStep_emit)
next
  case (Some c)
  have "loopStep w (emit (Unlink p) (onDisk (\<lambda>d. d(p := None)) w))"
    by (rule loopStep_trans [OF loopStep_onDisk loopStep_emit]) simp_all
  with Some show ?thesis by (simp add: unlinkLogged_def)
qed

lemma loopStep_tryFile: "loopStep w (tryFile sharp ev st zipPath f w)"
proof (cases "shouldCompress f")
  case True
  let ?w0 = "awaited w"
  show ?thesis
  proof (cases "sharpToBuffer sharp st (w_disk ?w0) (path_join uploadDir f)")
    case None
    have "loopStep ?w0 (emit (ConsoleError f) (emit (ConsoleWarn f) ?w0))"
      by (rule loopStep_trans [OF loopStep_emit loopStep_emit]) simp_all
    from loopStep_trans [OF loopStep_awaited this] True None show ?thesis
      by (simp add: tryFile_def Let_def)
  next
    case (Some buf)
    from loopStep_trans [OF loopStep_awaited loopStep_archiveAppend] True Some show ?thesis
      by (simp add: tryFile_def Let_def)
  qed
next
  case False
  let ?p = "path_join uploadDir f"
  let ?w0 = "emit (CreateReadStream ?p) w"
  have w0: "loopStep w ?w0" by (rule loopStep_emit) simp_all
  show ?thesis
  proof (cases "if streamOpens ev (completedCount w) then w_disk w ?p else None")
    case None
    from loopStep_trans [OF w0 loopStep_ignite] False None show ?thesis
      by (simp add: tryFile_def Let_def)
  next
    case (Some c)
    from loopStep_trans [OF w0 loopStep_archiveAppend] False Some show ?thesis
      by (simp add: tryFile_def Let_def)
  qed
qed

lemma loopStep_count:
  "loopStep w (emit (PostMessage (ProgressMsg (completedCount w2))) w2)"
  if "w2 = (if w_dead w then w else w\<lparr>completedCount := completedCount w + 1\<rparr>)"
proof (cases "w_dead w")
  case True
  with that show ?thesis by (simp add: emit_def loopStep_refl)
next
  case False
  have u: "[Suc (completedCount w) ..< Suc (Suc (completedCount w))] = [Suc (completedCount w)]"
    by (simp del: upt_Suc add: upt_rec [of "Suc (completedCount w)"])
  show ?thesis
    unfolding loopStep_def using False that u
    by (auto simp: emit_def simp del: upt_Suc)
qed

lemma loopStep_processFile: "loopStep w (processFile sharp ev st zipPath f w)"
proof -
  let ?w1 = "tryFile sharp ev st zipPath f w"
  let ?w2 = "if w_dead ?w1 then ?w1 else ?w1\<lparr>completedCount := completedCount ?w1 + 1\<rparr>"
  let ?w3 = "emit (PostMessage (ProgressMsg (completedCount ?w2))) ?w2"
  let ?w4 = "unlinkLogged (path_join uploadDir f) ?w3"
  have "loopStep ?w1 ?w3" by (rule loopStep_count) simp
  from loopStep_trans [OF loopStep_tryFile this] have "loopStep w ?w3" .
  from loopStep_trans [OF this loopStep_unlinkLogged] have "loopStep w ?w4" .
  from loopStep_trans [OF this loopStep_awaited] show ?thesis
    by (simp add: processFile_def Let_def)
qed

lemma loopStep_processFiles: "loopStep w (processFiles sharp ev st zipPath fs w)"
proof (induction fs arbitrary: w)
  case Nil
  then show ?case by (simp add: loopStep_refl)
next
  case (Cons f fs)
  from loopStep_trans [OF loopStep_processFile Cons.IH] show ?case by simp
qed

lemma count_prims:
  "completedCount (emit e w) = completedCount w"
  "completedCount (onDisk f w) = completedCount w"
  "completedCount (die w) = completedCount w"
  "completedCount (ignite k w) = completedCount w"
  "completedCount (awaited w) = completedCount w"
  by (simp_all add: emit_def onDisk_def die_def ignite_def awaited_def split: option.splits nat.splits)

lemma count_tryFile: "completedCount (tryFile sharp ev st zipPath f w) = completedCount w"
  by (simp add: tryFile_def Let_def archiveAppend_def count_prims split: option.splits)

lemma count_unlinkLogged: "completedCount (unlinkLogged p w) = completedCount w"
  by (simp add: unlinkLogged_def count_prims split: option.splits)

lemma count_processFile:
  "completedCount (processFile sharp ev st zipPath f w) \<le> Suc (completedCount w)"
  by (simp add: processFile_def Let_def count_prims count_unlinkLogged count_tryFile)

lemma count_processFiles:
  "completedCount (processFiles sharp ev st zipPath fs w) \<le> completedCount w + length fs"
proof (induction fs arbitrary: w)
  case Nil
  then show ?case by simp
next
  case (Cons f fs)
  have "completedCount (processFiles sharp ev st zipPath fs (processFile sharp ev st zipPath f w))
          \<le> completedCount (processFile sharp ev st zipPath f w) + length fs"
    by (rule Cons.IH)
  also have "\<dots> \<le> Suc (completedCount w) + length fs"
    using count_processFile [of sharp ev st zipPath f w] by simp
  finally show ?case by simp
qed

text \<open>A worker that has not ended after its loop has counted every file.\<close>

lemma dead_prims:
  "w_dead w \<Longrightarrow> emit e w = w"
  "w_dead w \<Longrightarrow> onDisk f w = w"
  "w_dead w \<Longrightarrow> awaited w = w"
  "w_dead w \<Longrightarrow> ignite k w = w"
  "w_dead w \<Longrightarrow> die w = w"
  by (simp_all add: emit_def onDisk_def awaited_def ignite_def die_def)

lemma dead_unlinkLogged: "w_dead w \<Longrightarrow> unlinkLogged p w = w"
  by (simp add: unlinkLogged_def dead_prims split: option.splits)

lemma alive_awaited: "\<not> w_dead (awaited w) \<Longrightarrow> \<not> w_dead w"
  by (auto simp: awaited_def)

lemma alive_processFile:
  assumes "\<not> w_dead (processFile sharp ev st zipPath f w)"
  shows "completedCount (processFile sharp ev st zipPath f w) = Suc (completedCount w)"
proof (cases "w_dead (tryFile sharp ev st zipPath f w)")
  case True
  then have "processFile sharp ev st zipPath f w = tryFile sharp ev st zipPath f w"
    by (simp add: processFile_def Let_def dead_prims dead_unlinkLogged)
  with True assms show ?thesis by simp
next
  case False
  then show ?thesis
    by (simp add: processFile_def Let_def count_prims count_unlinkLogged count_tryFile)
qed

lemma dead_processFiles: "w_dead w \<Longrightarrow> processFiles sharp ev st zipPath fs w = w"
proof (induction fs)
  case Nil
  then show ?case by simp
next
  case (Cons f fs)
  from loopStep_processFile [of w sharp ev st zipPath f] Cons.prems
  have "processFile sharp ev st zipPath f w = w" by (simp add: loopStep_def)
  with Cons show ?case by simp
qed

lemma alive_processFiles:
  assumes "\<not> w_dead (processFiles sharp ev st zipPath fs w)"
  shows "completedCount (processFiles sharp ev st zipPath fs w) = completedCount w + length fs"
  using assms
proof (induction fs arbitrary: w)
  case Nil
  then show ?case by simp
next
  case (Cons f fs)
  let ?w1 = "processFile sharp ev st zipPath f w"
  have a: "\<not> w_dead ?w1"
  proof
    assume "w_dead ?w1"
    from dead_processFiles [OF this] Cons.prems \<open>w_dead ?w1\<close> show False by simp
  qed
  from Cons.IH [of ?w1] Cons.prems alive_processFile [OF a] show ?case by simp
qed

lemma createWriteStream_start:
  "w_trace (createWriteStream ev zipPath (startWorker d)) = [CreateWriteStream zipPath]"
  "completedCount (createWriteStream ev zipPath (startWorker d)) = 0"
  "\<not> w_dead (createWriteStream ev zipPath (startWorker d))"
  by (simp_all add: createWriteStream_def startWorker_def emit_def onDisk_def ignite_def)

lemma compressAndZip_trace:
  assumes "openThrows ev = None"
  shows "\<exists>es k. k \<le> length (wd_files wd)
           \<and> (UncaughtException \<notin> set es \<longrightarrow> k = length (wd_files wd))
           \<and> (\<forall>e \<in> set es. loopEvent e)
           \<and> signals es = map ProgressMsg [1 ..< Suc k]
           \<and> w_trace (compressAndZip sharp ev wd d)
               = CreateWriteStream (path_join tempCompressedDir (zipNameOf (wd_zipFolderName wd) (wd_batchId wd)))
                 # es @ (if UncaughtException \<in> set es then []
                         else ending ev (path_join tempCompressedDir (zipNameOf (wd_zipFolderName wd) (wd_batchId wd)))
                                (zipNameOf (wd_zipFolderName wd) (wd_batchId wd)))
           \<and> (w_dead (compressAndZip sharp ev wd d) \<longleftrightarrow>
                 UncaughtException \<in> set es \<or> (finalizeRejects ev = None \<and> afterFinalize ev = LateError))"
proof -
  let ?zn = "zipNameOf (wd_zipFolderName wd) (wd_batchId wd)"
  let ?zp = "path_join tempCompressedDir ?zn"
  let ?w1 = "createWriteStream ev ?zp (startWorker d)"
  let ?w2 = "processFiles sharp ev (wd_settings wd) ?zp (wd_files wd) ?w1"
  define w3 where "w3 = (if w_fuse ?w2 \<noteq> None then die ?w2 else ?w2)"
  define w4 where "w4 = finalize ?zp w3"
  have "loopStep ?w2 w3" by (simp add: w3_def loopStep_die loopStep_refl)
  from loopStep_trans [OF loopStep_processFiles this] have "loopStep ?w1 w3" .
  then obtain es where es: "w_trace w3 = [CreateWriteStream ?zp] @ es" "\<forall>e \<in> set es. loopEvent e"
      "signals es = map ProgressMsg [1 ..< Suc (completedCount w3)]"
      "w_dead w3 \<longleftrightarrow> UncaughtException \<in> set es"
    unfolding loopStep_def by (auto simp: createWriteStream_start)
  have "completedCount w3 = completedCount ?w2" by (simp add: w3_def count_prims)
  also have "\<dots> \<le> completedCount ?w1 + length (wd_files wd)" by (rule count_processFiles)
  finally have k: "completedCount w3 \<le> length (wd_files wd)" by (simp add: createWriteStream_start)
  have k': "completedCount w3 = length (wd_files wd)" if "\<not> w_dead w3"
  proof -
    from that have "\<not> w_dead ?w2" and "w3 = ?w2"
      by (auto simp: w3_def die_def split: if_splits)
    with alive_processFiles [of sharp ev "wd_settings wd" ?zp "wd_files wd" ?w1] show ?thesis
      by (simp add: createWriteStream_start)
  qed
  have fin: "w_trace w4 = w_trace w3 @ [ArchiveFinalize]" "\<not> w_dead w4"
    if "\<not> w_dead w3"
    using that by (simp_all add: w4_def finalize_def emit_def onDisk_def)
  have c: "compressAndZip sharp ev wd d =
      (if w_dead w3 then w3
       else (case finalizeRejects ev of
               Some e \<Rightarrow> emit (PostMessage (ErrorMsg e)) w3
             | None \<Rightarrow>
                 (case afterFinalize ev of
                    Closes \<Rightarrow> emit (PostMessage (CompleteMsg ?zp ?zn)) (emit OutputClose w4)
                  | LateError \<Rightarrow> die w4
                  | Drains \<Rightarrow> w4)))"
    unfolding compressAndZip_def Let_def w3_def w4_def using assms by simp
  have t: "w_trace (compressAndZip sharp ev wd d)
             = CreateWriteStream ?zp # es @ (if UncaughtException \<in> set es then [] else ending ev ?zp ?zn)"
  proof (cases "w_dead w3")
    case True
    with c es show ?thesis by simp
  next
    case False
    with es(4) have n: "UncaughtException \<notin> set es" by simp
    from False fin have f: "w_trace w4 = w_trace w3 @ [ArchiveFinalize]" "\<not> w_dead w4"
      by simp_all
    show ?thesis
      unfolding c using False n f es(1)
      by (simp add: ending_def emit_def die_def split: option.splits closing.splits)
  qed
  have dd: "w_dead (compressAndZip sharp ev wd d) \<longleftrightarrow>
                 UncaughtException \<in> set es \<or> (finalizeRejects ev = None \<and> afterFinalize ev = LateError)"
  proof (cases "w_dead w3")
    case True
    with c es show ?thesis by simp
  next
    case False
    with es(4) have n: "UncaughtException \<notin> set es" by simp
    from False fin have f: "\<not> w_dead w4"
      by simp_all
    show ?thesis
      unfolding c using False n f
      by (simp add: emit_def die_def split: option.splits closing.splits)
  qed
  from k' es(4) have "UncaughtException \<notin> set es \<longrightarrow> completedCount w3 = length (wd_files wd)"
    by blast
  with k es(2,3) t dd show ?thesis by blast
qed

lemma compressAndZip_threw:
  assumes "openThrows ev = Some e"
  shows "w_trace (compressAndZip sharp ev wd d) = [PostMessage (ErrorMsg e)]"
    and "\<not> w_dead (compressAndZip sharp ev wd d)"
  using assms by (simp_all add: compressAndZip_def Let_def emit_def startWorker_def)

lemma signals_ending:
  "signals (ending ev zipPath zn) =
     (case finalizeRejects ev of
        Some e \<Rightarrow> [ErrorMsg e]
      | None \<Rightarrow> (case afterFinalize ev of Closes \<Rightarrow> [CompleteMsg zipPath zn] | _ \<Rightarrow> []))"
  by (simp add: ending_def split: option.splits closing.splits)

lemma progressValues_append: "progressValues (xs @ ys) = progressValues xs @ progressValues ys"
  by (induction xs rule: progressValues.induct) auto

lemma progressValues_map: "progressValues (map ProgressMsg cs) = cs"
  by (induction cs) auto

lemma batchMessages_append: "batchMessages b (xs @ ys) = batchMessages b xs @ batchMessages b ys"
  by (induction b xs rule: batchMessages.induct) auto

lemma compressAndZip_progressValues:
  "\<exists>k. k \<le> length (wd_files wd)
       \<and> progressValues (signals (w_trace (compressAndZip sharp ev wd d))) = [1 ..< Suc k]"
proof (cases "openThrows ev")
  case None
  from compressAndZip_trace [OF None, of wd sharp d] obtain es k where
    h: "k \<le> length (wd_files wd)" "signals es = map ProgressMsg [1 ..< Suc k]"
      "w_trace (compressAndZip sharp ev wd d)
        = CreateWriteStream (path_join tempCompressedDir (zipNameOf (wd_zipFolderName wd) (wd_batchId wd)))
                 # es @ (if UncaughtException \<in> set es then []
                         else ending ev (path_join tempCompressedDir (zipNameOf (wd_zipFolderName wd) (wd_batchId wd)))
                                (zipNameOf (wd_zipFolderName wd) (wd_batchId wd)))"
    by blast
  have "progressValues (signals (w_trace (compressAndZip sharp ev wd d))) = [1 ..< Suc k]"
    unfolding h(3)
    by (simp add: signals_append h(2) progressValues_append progressValues_map signals_ending
          del: upt_Suc split: option.splits closing.splits)
  with h(1) show ?thesis by blast
next
  case (Some e)
  have "progressValues (signals (w_trace (compressAndZip sharp ev wd d))) = [1 ..< Suc 0]"
    by (simp add: compressAndZip_threw [OF Some])
  then show ?thesis by blast
qed

lemma prefix_of_upt:
  assumes "xs @ ys = [1 ..< Suc n]"
  shows "xs = [1 ..< Suc (length xs)] \<and> length xs \<le> n"
proof -
  from assms have l: "length xs + length ys = n"
    by (metis diff_Suc_1 length_append length_upt)
  from assms have "xs = take (length xs) [1 ..< Suc n]"
    by (metis append_eq_conv_conj)
  also have "\<dots> = [1 ..< 1 + length xs]"
    using l by (subst take_upt) simp_all
  finally show ?thesis using l by simp
qed

lemma delivered_progressValues:
  assumes "ms @ rest = signals (w_trace (compressAndZip sharp ev wd d))"
  shows "progressValues ms = [1 ..< Suc (length (progressValues ms))]
         \<and> length (progressValues ms) \<le> length (wd_files wd)"
proof -
  from compressAndZip_progressValues [of wd sharp ev d] obtain k where
    k: "k \<le> length (wd_files wd)"
      "progressValues (signals (w_trace (compressAndZip sharp ev wd d))) = [1 ..< Suc k]"
    by blast
  have "progressValues ms @ progressValues rest = [1 ..< Suc k]"
    using k(2) by (simp only: assms [symmetric] progressValues_append)
  from prefix_of_upt [OF this] k(1) show ?thesis by simp
qed

text \<open>A run that finalizes its archive has posted the progress of every file. A
  complete message is the last effect of its run and follows finalizing and the closing
  of the output; an error message is the last effect of its run; no run posts both.\<close>

lemma finalized_run_counts_all:
  assumes "ArchiveFinalize \<in> set (w_trace (compressAndZip sharp ev wd d))"
  shows "progressValues (signals (w_trace (compressAndZip sharp ev wd d)))
           = [1 ..< Suc (length (wd_files wd))]"
proof (cases "openThrows ev")
  case (Some e)
  with assms show ?thesis by (simp add: compressAndZip_threw)
next
  case None
  let ?zn = "zipNameOf (wd_zipFolderName wd) (wd_batchId wd)"
  let ?zp = "path_join tempCompressedDir ?zn"
  from compressAndZip_trace [OF None, of wd sharp d] obtain es k where
    h: "UncaughtException \<notin> set es \<longrightarrow> k = length (wd_files wd)" "\<forall>e \<in> set es. loopEvent e"
      "signals es = map ProgressMsg [1 ..< Suc k]"
      "w_trace (compressAndZip sharp ev wd d)
        = CreateWriteStream ?zp # es @ (if UncaughtException \<in> set es then [] else ending ev ?zp ?zn)"
    by blast
  have "ArchiveFinalize \<notin> set es" using h(2) by auto
  with assms h(4) have n: "UncaughtException \<notin> set es"
    by (auto split: if_splits)
  with h(1) have k: "k = length (wd_files wd)" by simp
  show ?thesis
    unfolding h(4) using n
    by (simp add: signals_append h(3) k progressValues_append progressValues_map signals_ending
          del: upt_Suc split: option.splits closing.splits)
qed

lemma complete_or_error_is_last:
  shows "PostMessage (CompleteMsg zp zn) \<in> set (w_trace (compressAndZip sharp ev wd d)) \<Longrightarrow>
           \<exists>es. w_trace (compressAndZip sharp ev wd d)
                  = es @ [ArchiveFinalize, OutputClose, PostMessage (CompleteMsg zp zn)]
                \<and> (\<forall>m. PostMessage m \<in> set es \<longrightarrow> isProgress m)"
    and "PostMessage (ErrorMsg err) \<in> set (w_trace (compressAndZip sharp ev wd d)) \<Longrightarrow>
           \<exists>es. w_trace (compressAndZip sharp ev wd d) = es @ [PostMessage (ErrorMsg err)]
                \<and> (\<forall>m. PostMessage m \<in> set es \<longrightarrow> isProgress m)"
proof -
  let ?zn = "zipNameOf (wd_zipFolderName wd) (wd_batchId wd)"
  let ?zp = "path_join tempCompressedDir ?zn"
  let ?W = "compressAndZip sharp ev wd d"
  have "(PostMessage (CompleteMsg zp zn) \<in> set (w_trace ?W) \<longrightarrow>
           (\<exists>es. w_trace ?W = es @ [ArchiveFinalize, OutputClose, PostMessage (CompleteMsg zp zn)]
                \<and> (\<forall>m. PostMessage m \<in> set es \<longrightarrow> isProgress m)))
      \<and> (PostMessage (ErrorMsg err) \<in> set (w_trace ?W) \<longrightarrow>
           (\<exists>es. w_trace ?W = es @ [PostMessage (ErrorMsg err)]
                \<and> (\<forall>m. PostMessage m \<in> set es \<longrightarrow> isProgress m)))"
  proof (cases "openThrows ev")
    case (Some e)
    have "w_trace ?W = [] @ [PostMessage (ErrorMsg e)]"
      by (simp add: compressAndZip_threw [OF Some])
    then show ?thesis by (auto simp: compressAndZip_threw [OF Some])
  next
    case None
    from compressAndZip_trace [OF None, of wd sharp d] obtain es where
      h: "\<forall>e \<in> set es. loopEvent e"
        "w_trace ?W = CreateWriteStream ?zp # es @ (if UncaughtException \<in> set es then [] else ending ev ?zp ?zn)"
      by blast
    have p: "\<forall>m. PostMessage m \<in> set (CreateWriteStream ?zp # es) \<longrightarrow> isProgress m"
    proof (intro allI impI)
      fix m assume "PostMessage m \<in> set (CreateWriteStream ?zp # es)"
      then have "loopEvent (PostMessage m)" using h(1) by auto
      then show "isProgress m" by (cases m) simp_all
    qed
    then have np: "PostMessage (CompleteMsg zp zn) \<notin> set es" "PostMessage (ErrorMsg err) \<notin> set es"
      by auto
    show ?thesis
    proof (cases "UncaughtException \<in> set es")
      case True
      with h(2) np show ?thesis by simp
    next
      case False
      show ?thesis
      proof (cases "finalizeRejects ev")
        case (Some e)
        with False h(2) have t: "w_trace ?W = (CreateWriteStream ?zp # es) @ [PostMessage (ErrorMsg e)]"
          by (simp add: ending_def)
        from t np p show ?thesis by auto
      next
        case None
        show ?thesis
        proof (cases "afterFinalize ev")
          case Closes
          with False None h(2) have t: "w_trace ?W = (CreateWriteStream ?zp # es)
              @ [ArchiveFinalize, OutputClose, PostMessage (CompleteMsg ?zp ?zn)]"
            by (simp add: ending_def)
          from t np p show ?thesis by auto
        next
          case LateError
          with False None h(2) np show ?thesis by (simp add: ending_def)
        next
          case Drains
          with False None h(2) np show ?thesis by (simp add: ending_def)
        qed
      qed
    qed
  qed
  then show "PostMessage (CompleteMsg zp zn) \<in> set (w_trace ?W) \<Longrightarrow>
           \<exists>es. w_trace ?W = es @ [ArchiveFinalize, OutputClose, PostMessage (CompleteMsg zp zn)]
                \<and> (\<forall>m. PostMessage m \<in> set es \<longrightarrow> isProgress m)"
    and "PostMessage (ErrorMsg err) \<in> set (w_trace ?W) \<Longrightarrow>
           \<exists>es. w_trace ?W = es @ [PostMessage (ErrorMsg err)]
                \<and> (\<forall>m. PostMessage m \<in> set es \<longrightarrow> isProgress m)"
    by blast+
qed

section \<open>Totals of registry entries\<close>

lemma entryOk_updates [simp]:
  "entryOk (e\<lparr>completed := c\<rparr>) = entryOk e"
  "entryOk (e\<lparr>status := st\<rparr>) = entryOk e"
  "entryOk (e\<lparr>zipName := z\<rparr>) = entryOk e"
  by (simp_all add: entryOk_def)

lemma registry_step:
  assumes "step ev s = Inr s'"
    and "\<forall>b e. compressionProgress s b = Some e \<longrightarrow> entryOk e"
  shows "\<forall>b e. compressionProgress s' b = Some e \<longrightarrow> entryOk e"
proof (cases ev)
  case (Compress req b)
  have "entryOk \<lparr>total = length ups, completed = 0, status = Processing,
                  files = map fst ups, zipName = None\<rparr>" if "ups \<noteq> []" for ups :: "(string \<times> bytes) list"
    using that by (cases ups) (simp_all add: entryOk_def)
  with Compress assms show ?thesis
    by (auto simp: compress_def split: option.splits if_splits)
next
  case (Message b m)
  with assms show ?thesis
    by (auto simp: on_message_def setStatus_def cleanupBatchUploadedFiles_def
          split: option.splits msg.splits if_splits)
next
  case (WorkerError b)
  with assms show ?thesis
    by (auto simp: on_error_def setStatus_def cleanupBatchUploadedFiles_def
          split: option.splits if_splits)
next
  case (Exit b code)
  with assms show ?thesis
    by (auto simp: on_exit_def setStatus_def cleanupBatchUploadedFiles_def Let_def
          split: option.splits if_splits)
next
  case (GetProgress b)
  with assms show ?thesis by auto
next
  case (Download b)
  with assms show ?thesis
    by (auto simp: download_def Let_def split: option.splits if_splits)
next
  case (Cleanup b)
  with assms show ?thesis
    by (auto simp: cleanup_def cleanupBatchUploadedFiles_def Let_def split: option.splits if_splits)
next
  case (WorkerDisk d)
  with assms show ?thesis by auto
qed

lemma registry_run:
  assumes "run evs s = Inr s'"
    and "\<forall>b e. compressionProgress s b = Some e \<longrightarrow> entryOk e"
  shows "\<forall>b e. compressionProgress s' b = Some e \<longrightarrow> entryOk e"
  using assms
proof (induction evs arbitrary: s)
  case Nil
  then show ?case by simp
next
  case (Cons ev evs)
  from Cons.prems(1) obtain s1 where s1: "step ev s = Inr s1" and r: "run evs s1 = Inr s'"
    by (auto split: sum.splits)
  from registry_step [OF s1 Cons.prems(2)] Cons.IH [OF r] show ?case by blast
qed

text \<open>
  C10. A submission without files, or with an empty list of files, is answered with 400
  and creates no entry. Otherwise the entry is created with a total equal to the number
  of uploaded files, which is at least one. In every state that the server reaches from
  its start, every entry has a total equal to the number of its files and at least one,
  so the percentage that \<^verbatim>\<open>GET /progress/:batchId\<close> computes never divides by zero.
\<close>

theorem total_positive_no_division_by_zero:
  "((req_files req = None \<or> req_files req = Some []) \<longrightarrow>
       compress req b s = (BadRequest ''No files uploaded.'', s))
   \<and> (req_files req = Some ups \<and> ups \<noteq> [] \<longrightarrow>
        (\<exists>e. compressionProgress (snd (compress req b s)) b = Some e
             \<and> total e = length ups \<and> 1 \<le> total e))
   \<and> (run evs initial = Inr s' \<and> compressionProgress s' b = Some e \<longrightarrow>
        total e = length (files e) \<and> 1 \<le> total e
        \<and> (\<exists>pc. progress b s' = JsonProgress (Some pc) (status e) (total e) (completed e)))"
proof -
  have inv0: "\<forall>b e. compressionProgress initial b = Some e \<longrightarrow> entryOk e"
    by (simp add: initial_def)
  have a: "(req_files req = None \<or> req_files req = Some []) \<longrightarrow>
       compress req b s = (BadRequest ''No files uploaded.'', s)"
    by (auto simp: compress_def)
  have b: "req_files req = Some ups \<and> ups \<noteq> [] \<longrightarrow>
        (\<exists>e. compressionProgress (snd (compress req b s)) b = Some e
             \<and> total e = length ups \<and> 1 \<le> total e)"
    by (cases ups) (auto simp: compress_def)
  have c: "run evs initial = Inr s' \<and> compressionProgress s' b = Some e \<longrightarrow>
        total e = length (files e) \<and> 1 \<le> total e
        \<and> (\<exists>pc. progress b s' = JsonProgress (Some pc) (status e) (total e) (completed e))"
  proof
    assume h: "run evs initial = Inr s' \<and> compressionProgress s' b = Some e"
    then have "entryOk e"
      using registry_run [OF _ inv0] by blast
    then have t: "total e = length (files e)" "1 \<le> total e"
      by (simp_all add: entryOk_def)
    from t(2) have "progressPercent (completed e) (total e) \<noteq> None"
      by (simp add: progressPercent_def)
    with t h show "total e = length (files e) \<and> 1 \<le> total e
        \<and> (\<exists>pc. progress b s' = JsonProgress (Some pc) (status e) (total e) (completed e))"
      by (auto simp: progress_def)
  qed
  from a b c show ?thesis by blast
qed

text \<open>
  An empty submission is rejected; a submission of two images has total two, and after one
  progress signal the progress endpoint reports 50 percent.
\<close>

theorem total_positive_no_division_by_zero_witness:
  "compress (imagesRequest\<lparr>req_files := Some []\<rparr>) ''b0'' initial = (BadRequest ''No files uploaded.'', initial)
   \<and> (\<exists>e. compressionProgress (snd (compress imagesRequest ''b1'' initial)) ''b1'' = Some e
          \<and> total e = 2 \<and> 1 \<le> total e)
   \<and> (\<exists>s'. run [Compress imagesRequest ''b1'', Message ''b1'' (ProgressMsg 1)] initial = Inr s'
          \<and> compressionProgress s' ''b1''
              = Some \<lparr>total = 2, completed = 1, status = Processing,
                      files = [''a.png'', ''c.jpg''], zipName = None\<rparr>
          \<and> progress ''b1'' s' = JsonProgress (Some 50) Processing 2 1)"
proof -
  let ?e = "\<lparr>total = 2, completed = 1, status = Processing,
             files = [''a.png'', ''c.jpg''], zipName = None\<rparr>"
  let ?ups = "[(''a.png'', [1, 2, 3 :: 8 word]), (''c.jpg'', [5, 6])]"
  obtain s' where s': "run [Compress imagesRequest ''b1'', Message ''b1'' (ProgressMsg 1)] initial = Inr s'"
      "compressionProgress s' ''b1'' = Some ?e"
    by (simp add: imagesRequest_def initial_def compress_def on_message_def Suc_1 [unfolded One_nat_def])
  have f0: "req_files (imagesRequest\<lparr>req_files := Some []\<rparr>) = Some []" by simp
  have f: "req_files imagesRequest = Some ?ups" "?ups \<noteq> []"
    by (simp_all add: imagesRequest_def)
  have l2: "length ?ups = 2" by simp
  have pc: "progressPercent (Suc 0) 2 = Some 50" by code_simp
  note T0 = total_positive_no_division_by_zero [where req = "imagesRequest\<lparr>req_files := Some []\<rparr>"
          and b = "''b0''" and s = initial and evs = "[]" and ups = "[]" and s' = initial and e = ?e]
  note T1 = total_positive_no_division_by_zero [where req = imagesRequest and ups = ?ups
          and b = "''b1''" and s = initial
          and evs = "[Compress imagesRequest ''b1'', Message ''b1'' (ProgressMsg 1)]"
          and s' = s' and e = ?e]
  from T0 f0 have c1: "compress (imagesRequest\<lparr>req_files := Some []\<rparr>) ''b0'' initial
      = (BadRequest ''No files uploaded.'', initial)"
    by blast
  from T1 f have "\<exists>e. compressionProgress (snd (compress imagesRequest ''b1'' initial)) ''b1'' = Some e
          \<and> total e = length ?ups \<and> 1 \<le> total e"
    by blast
  then have c2: "\<exists>e. compressionProgress (snd (compress imagesRequest ''b1'' initial)) ''b1'' = Some e
          \<and> total e = 2 \<and> 1 \<le> total e"
    by (simp only: l2)
  from T1 s' have "\<exists>pc. progress ''b1'' s' = JsonProgress (Some pc) (status ?e) (total ?e) (completed ?e)"
    by blast
  then have c3: "progress ''b1'' s' = JsonProgress (Some 50) Processing 2 1"
    by (simp add: progress_def s'(2) pc)
  from c1 c2 c3 s' show ?thesis by blast
qed

section \<open>Download\<close>

text \<open>
  C7. \<^verbatim>\<open>GET /download/:batchId\<close> answers with the archive exactly when the registry entry
  exists, its status is Complete, its archive name is set and the archive file is on disk,
  and with 404 otherwise, leaving the server as it was. After a transfer the entry and
  the archive file are gone, and a second download of the same batch answers 404.
\<close>

theorem download_then_gone:
  "(fst (download b s) = DownloadFile p n \<longleftrightarrow>
      (\<exists>e. compressionProgress s b = Some e \<and> status e = Complete \<and> zipName e = Some n \<and> n \<noteq> []
           \<and> disk s (path_join tempCompressedDir n) \<noteq> None \<and> p = path_join tempCompressedDir n))
   \<and> ((\<forall>p n. fst (download b s) \<noteq> DownloadFile p n) \<longrightarrow>
        (\<exists>m. fst (download b s) = NotFound m) \<and> snd (download b s) = s)
   \<and> (fst (download b s) = DownloadFile p n \<longrightarrow>
        compressionProgress (snd (download b s)) b = None
        \<and> disk (snd (download b s)) p = None
        \<and> (\<exists>m. fst (download b (snd (download b s))) = NotFound m))"
  by (auto simp: download_def truthy_def Let_def split: option.splits if_splits)

text \<open>
  A completed batch is downloaded once and then not found; a batch that was never
  submitted is not found.
\<close>

theorem download_then_gone_witness:
  "fst (download ''b1'' sampleComplete)
     = DownloadFile ''/app/temp_compressed/compressed_images_b1.zip'' ''compressed_images_b1.zip''
   \<and> compressionProgress (snd (download ''b1'' sampleComplete)) ''b1'' = None
   \<and> disk (snd (download ''b1'' sampleComplete)) ''/app/temp_compressed/compressed_images_b1.zip'' = None
   \<and> fst (download ''b1'' (snd (download ''b1'' sampleComplete)))
       = NotFound ''Zip file not found or compression not complete.''
   \<and> (\<forall>p n. fst (download ''b1'' initial) \<noteq> DownloadFile p n)
   \<and> download ''b1'' initial = (NotFound ''Zip file not found or compression not complete.'', initial)"
proof -
  let ?p = "''/app/temp_compressed/compressed_images_b1.zip''"
  let ?n = "''compressed_images_b1.zip''"
  have pj: "path_join tempCompressedDir ?n = ?p" by code_simp
  have e: "compressionProgress sampleComplete ''b1''
             = Some \<lparr>total = 2, completed = 2, status = Complete, files = [''a.png'', ''c.jpg''],
                     zipName = Some ?n\<rparr>"
    "disk sampleComplete ?p \<noteq> None"
    by (simp_all add: sampleComplete_def)
  have d2: "fst (download ''b1'' (snd (download ''b1'' sampleComplete)))
       = NotFound ''Zip file not found or compression not complete.''"
    by (simp add: download_def Let_def e truthy_def pj)
  have d0: "download ''b1'' initial = (NotFound ''Zip file not found or compression not complete.'', initial)"
    by (simp add: download_def initial_def)
  note T = download_then_gone [of "''b1''" sampleComplete ?p ?n]
  note T0 = download_then_gone [of "''b1''" initial]
  from T e pj have a: "fst (download ''b1'' sampleComplete) = DownloadFile ?p ?n"
    by simp
  with T have b: "compressionProgress (snd (download ''b1'' sampleComplete)) ''b1'' = None"
    "disk (snd (download ''b1'' sampleComplete)) ?p = None"
    by blast+
  have n0: "\<forall>p n. fst (download ''b1'' initial) \<noteq> DownloadFile p n"
    by (simp add: d0)
  with T0 have "snd (download ''b1'' initial) = initial" by blast
  from a b d2 n0 d0 show ?thesis by blast
qed

section \<open>The completed count of a batch\<close>

lemma step_absent:
  assumes "step ev s = Inr s1" and "compressionProgress s b = None" and "\<not> submits b ev"
  shows "compressionProgress s1 b = None"
proof (cases ev)
  case (Compress req b')
  with assms show ?thesis
    by (auto simp: compress_def split: option.splits if_splits)
next
  case (Message b' m)
  with assms show ?thesis
    by (auto simp: on_message_def setStatus_def cleanupBatchUploadedFiles_def
          split: option.splits msg.splits if_splits)
next
  case (WorkerError b')
  with assms show ?thesis
    by (auto simp: on_error_def setStatus_def cleanupBatchUploadedFiles_def
          split: option.splits if_splits)
next
  case (Exit b' code)
  with assms show ?thesis
    by (auto simp: on_exit_def setStatus_def cleanupBatchUploadedFiles_def Let_def
          split: option.splits if_splits)
next
  case (GetProgress b')
  with assms show ?thesis by auto
next
  case (Download b')
  with assms show ?thesis
    by (auto simp: download_def Let_def split: option.splits if_splits)
next
  case (Cleanup b')
  with assms show ?thesis
    by (auto simp: cleanup_def cleanupBatchUploadedFiles_def Let_def split: option.splits if_splits)
next
  case (WorkerDisk d)
  with assms show ?thesis by auto
qed

lemma run_absent:
  assumes "run evs s = Inr s'" and "compressionProgress s b = None" and "\<forall>x \<in> set evs. \<not> submits b x"
  shows "compressionProgress s' b = None"
  using assms
proof (induction evs arbitrary: s)
  case Nil
  then show ?case by simp
next
  case (Cons ev evs)
  from Cons.prems(1) obtain s1 where s1: "step ev s = Inr s1" and r: "run evs s1 = Inr s'"
    by (auto split: sum.splits)
  from step_absent [OF s1 Cons.prems(2)] Cons.prems(3) have "compressionProgress s1 b = None" by simp
  from Cons.IH [OF r this] Cons.prems(3) show ?case by simp
qed

lemma step_progress:
  assumes "step (Message b (ProgressMsg c)) s = Inr s1" and "compressionProgress s b = Some e0"
  shows "\<exists>e1. compressionProgress s1 b = Some e1 \<and> completed e1 = c \<and> total e1 = total e0"
  using assms by (auto simp: on_message_def)

lemma step_other:
  assumes "step ev s = Inr s1" and "compressionProgress s b = Some e0" and "\<not> submits b ev"
    and "\<forall>c. ev \<noteq> Message b (ProgressMsg c)"
  shows "compressionProgress s1 b = None
         \<or> (\<exists>e1. compressionProgress s1 b = Some e1 \<and> completed e1 = completed e0 \<and> total e1 = total e0)"
proof (cases ev)
  case (Compress req b')
  with assms show ?thesis
    by (auto simp: compress_def split: option.splits if_splits)
next
  case (Message b' m)
  with assms show ?thesis
    by (cases m) (auto simp: on_message_def setStatus_def cleanupBatchUploadedFiles_def
          split: option.splits if_splits)
next
  case (WorkerError b')
  with assms show ?thesis
    by (auto simp: on_error_def setStatus_def cleanupBatchUploadedFiles_def
          split: option.splits if_splits)
next
  case (Exit b' code)
  with assms show ?thesis
    by (auto simp: on_exit_def setStatus_def cleanupBatchUploadedFiles_def Let_def
          split: option.splits if_splits)
next
  case (GetProgress b')
  with assms show ?thesis by auto
next
  case (Download b')
  with assms show ?thesis
    by (auto simp: download_def Let_def split: option.splits if_splits)
next
  case (Cleanup b')
  with assms show ?thesis
    by (auto simp: cleanup_def cleanupBatchUploadedFiles_def Let_def split: option.splits if_splits)
next
  case (WorkerDisk d)
  with assms show ?thesis by auto
qed

lemma batchMessages_other:
  assumes "\<forall>c. ev \<noteq> Message b (ProgressMsg c)"
  shows "progressValues (batchMessages b (ev # evs)) = progressValues (batchMessages b evs)"
proof (cases ev)
  case (Message b' m)
  with assms show ?thesis by (cases m) auto
qed simp_all

lemma run_completed:
  assumes "run evs s = Inr s'" and "compressionProgress s b = Some e0"
    and "\<forall>x \<in> set evs. \<not> submits b x"
    and "progressValues (batchMessages b evs) = [Suc (completed e0) ..< Suc (completed e0 + k)]"
    and "compressionProgress s' b = Some e"
  shows "completed e = completed e0 + k \<and> total e = total e0"
  using assms
proof (induction evs arbitrary: s e0 k)
  case Nil
  from Nil.prems(4) have "[] = [Suc (completed e0) ..< Suc (completed e0 + k)]"
    by (simp only: progressValues.simps batchMessages.simps)
  then have "[Suc (completed e0) ..< Suc (completed e0 + k)] = []" by (rule sym)
  then have "k = 0" unfolding upt_eq_Nil_conv by simp
  with Nil.prems(1,2,5) show ?case by simp
next
  case (Cons ev evs)
  from Cons.prems(1) obtain s1 where s1: "step ev s = Inr s1" and r: "run evs s1 = Inr s'"
    by (auto split: sum.splits)
  have ns: "\<forall>x \<in> set evs. \<not> submits b x" and nsev: "\<not> submits b ev"
    using Cons.prems(3) by simp_all
  show ?case
  proof (cases "\<exists>c. ev = Message b (ProgressMsg c)")
    case True
    then obtain c where ev: "ev = Message b (ProgressMsg c)" by blast
    from step_progress [OF s1 [unfolded ev] Cons.prems(2)]
    obtain e1 where e1: "compressionProgress s1 b = Some e1" "completed e1 = c" "total e1 = total e0"
      by blast
    from Cons.prems(4) have pv: "c # progressValues (batchMessages b evs)
        = [Suc (completed e0) ..< Suc (completed e0 + k)]"
      by (simp add: ev)
    have k: "0 < k"
    proof (cases k)
      case 0
      with pv show ?thesis by simp
    next
      case (Suc j)
      then show ?thesis by simp
    qed
    then have "[Suc (completed e0) ..< Suc (completed e0 + k)]
        = Suc (completed e0) # [Suc (Suc (completed e0)) ..< Suc (completed e0 + k)]"
      by (subst upt_conv_Cons) simp_all
    with pv have "c # progressValues (batchMessages b evs)
        = Suc (completed e0) # [Suc (Suc (completed e0)) ..< Suc (completed e0 + k)]"
      by (rule trans)
    then have c: "c = Suc (completed e0)"
      and rest: "progressValues (batchMessages b evs) = [Suc (Suc (completed e0)) ..< Suc (completed e0 + k)]"
      by (simp_all only: list.inject)
    have a1: "Suc (Suc (completed e0)) = Suc (completed e1)"
      using c e1(2) by simp
    have a2: "Suc (completed e0 + k) = Suc (completed e1 + (k - 1))"
      using k c e1(2) by arith
    from rest have "progressValues (batchMessages b evs) = [Suc (completed e1) ..< Suc (completed e1 + (k - 1))]"
      by (simp only: a1 a2)
    from Cons.IH [OF r e1(1) ns this Cons.prems(5)]
    have "completed e = completed e1 + (k - 1)" and "total e = total e1"
      by simp_all
    with c e1 k show ?thesis by arith
  next
    case False
    then have nev: "\<forall>c. ev \<noteq> Message b (ProgressMsg c)" by blast
    from step_other [OF s1 Cons.prems(2) nsev nev]
    consider (gone) "compressionProgress s1 b = None"
      | (kept) e1 where "compressionProgress s1 b = Some e1" "completed e1 = completed e0" "total e1 = total e0"
      by auto
    then show ?thesis
    proof cases
      case gone
      from run_absent [OF r gone ns] Cons.prems(5) show ?thesis by simp
    next
      case kept
      from Cons.prems(4) have "progressValues (batchMessages b evs)
          = [Suc (completed e1) ..< Suc (completed e1 + k)]"
        by (simp only: batchMessages_other [OF nev] kept(2))
      from Cons.IH [OF r kept(1) ns this Cons.prems(5)] show ?thesis
        using kept by simp
    qed
  qed
qed

lemma compress_creates:
  assumes "req_files req = Some ups" and "ups \<noteq> []"
  shows "compressionProgress (snd (compress req b s)) b
           = Some \<lparr>total = length ups, completed = 0, status = Processing,
                   files = map fst ups, zipName = None\<rparr>"
  using assms by (cases ups) (simp_all add: compress_def)

lemma lifetime_completed:
  assumes "req_files req = Some ups" and "ups \<noteq> []"
    and "batchMessages b evs @ rest
           = signals (w_trace (compressAndZip sharp ev (workerDataOf req b) d))"
    and "\<forall>x \<in> set evs. \<not> submits b x"
    and "run evs (snd (compress req b s)) = Inr s'" and "compressionProgress s' b = Some e"
  shows "completed e = length (progressValues (batchMessages b evs))
         \<and> total e = length ups
         \<and> length (progressValues (batchMessages b evs)) \<le> length ups"
proof -
  let ?e0 = "\<lparr>total = length ups, completed = 0, status = Processing,
              files = map fst ups, zipName = None\<rparr>"
  let ?k = "length (progressValues (batchMessages b evs))"
  have e0: "compressionProgress (snd (compress req b s)) b = Some ?e0"
    by (rule compress_creates [OF assms(1,2)])
  have n: "length (wd_files (workerDataOf req b)) = length ups"
    by (simp add: workerDataOf_def assms(1))
  from delivered_progressValues [OF assms(3)] n
  have pv: "progressValues (batchMessages b evs) = [1 ..< Suc ?k]" and le: "?k \<le> length ups"
    by simp_all
  from pv have "progressValues (batchMessages b evs) = [Suc (completed ?e0) ..< Suc (completed ?e0 + ?k)]"
    by simp
  from run_completed [OF assms(5) e0 assms(4) this assms(6)] le show ?thesis by simp
qed

text \<open>
  C5. Take a batch submitted with a non-empty list of files under an identifier \<open>b\<close>, and
  any sequence of events of the host in which the messages of \<open>b\<close> are, in order, an initial
  part of the signals of a run of its worker, and in which \<open>b\<close> is not submitted again; events of
  other batches, polls, worker exits, downloads and cleanups may occur anywhere. As long as
  the entry of \<open>b\<close> exists, its total is the number of uploaded files, its completed count is at
  most the total, the progress endpoint reports exactly these two numbers, and the
  completed count after any initial part of the events is at most the count after all of
  them, with the same total.
\<close>

theorem completed_monotone_and_bounded:
  assumes "req_files req = Some ups" and "ups \<noteq> []"
    and "batchMessages b evs @ rest
           = signals (w_trace (compressAndZip sharp ev (workerDataOf req b) d))"
    and "\<forall>x \<in> set evs. \<not> submits b x"
    and "run evs (snd (compress req b s)) = Inr s'" and "compressionProgress s' b = Some e"
  shows "total e = length ups \<and> completed e \<le> total e
         \<and> progress b s' = JsonProgress (progressPercent (completed e) (length ups)) (status e)
                              (length ups) (completed e)
         \<and> (\<forall>evs1 evs2 s1 e1.
               evs = evs1 @ evs2 \<and> run evs1 (snd (compress req b s)) = Inr s1
                 \<and> compressionProgress s1 b = Some e1
               \<longrightarrow> completed e1 \<le> completed e \<and> total e1 = total e)"
proof -
  from lifetime_completed [OF assms]
  have c: "completed e = length (progressValues (batchMessages b evs))"
    and t: "total e = length ups"
    and le: "length (progressValues (batchMessages b evs)) \<le> length ups"
    by simp_all
  have mono: "completed e1 \<le> completed e \<and> total e1 = total e"
    if h: "evs = evs1 @ evs2" "run evs1 (snd (compress req b s)) = Inr s1"
      "compressionProgress s1 b = Some e1" for evs1 evs2 s1 e1
  proof -
    have m: "batchMessages b evs1 @ (batchMessages b evs2 @ rest)
           = signals (w_trace (compressAndZip sharp ev (workerDataOf req b) d))"
      using assms(3) by (simp add: h(1) batchMessages_append)
    have ns: "\<forall>x \<in> set evs1. \<not> submits b x"
      using assms(4) by (simp add: h(1))
    from lifetime_completed [OF assms(1,2) m ns h(2,3)]
    have "completed e1 = length (progressValues (batchMessages b evs1))" and "total e1 = length ups"
      by simp_all
    then show ?thesis
      by (simp add: c t h(1) batchMessages_append progressValues_append)
  qed
  have p: "progress b s' = JsonProgress (progressPercent (completed e) (length ups)) (status e)
                              (length ups) (completed e)"
    by (simp add: progress_def assms(6) t)
  from c t le mono p show ?thesis by auto
qed

text \<open>
  Two images: after the first progress signal and a poll the count is 1, after the second
  it is 2 of 2, reported as 100 percent.
\<close>

theorem completed_monotone_and_bounded_witness:
  "(\<exists>s'. run [Message ''b1'' (ProgressMsg 1), GetProgress ''b1'', Message ''b1'' (ProgressMsg 2)]
            (snd (compress imagesRequest ''b1'' initial)) = Inr s'
        \<and> compressionProgress s' ''b1''
            = Some \<lparr>total = 2, completed = 2, status = Processing,
                    files = [''a.png'', ''c.jpg''], zipName = None\<rparr>
        \<and> progress ''b1'' s' = JsonProgress (Some 100) Processing 2 2)
   \<and> (\<exists>s1. run [Message ''b1'' (ProgressMsg 1), GetProgress ''b1'']
            (snd (compress imagesRequest ''b1'' initial)) = Inr s1
        \<and> compressionProgress s1 ''b1''
            = Some \<lparr>total = 2, completed = 1, status = Processing,
                    files = [''a.png'', ''c.jpg''], zipName = None\<rparr>)"
proof -
  let ?evs = "[Message ''b1'' (ProgressMsg 1), GetProgress ''b1'', Message ''b1'' (ProgressMsg 2)]"
  let ?s0 = "snd (compress imagesRequest ''b1'' initial)"
  let ?e = "\<lparr>total = 2, completed = 2, status = Processing,
             files = [''a.png'', ''c.jpg''], zipName = None\<rparr>"
  let ?e1 = "\<lparr>total = 2, completed = 1, status = Processing,
             files = [''a.png'', ''c.jpg''], zipName = None\<rparr>"
  obtain s' where s': "run ?evs ?s0 = Inr s'" "compressionProgress s' ''b1'' = Some ?e"
    by (simp add: imagesRequest_def initial_def compress_def on_message_def Suc_1 [unfolded One_nat_def])
  obtain s1 where s1: "run [Message ''b1'' (ProgressMsg 1), GetProgress ''b1''] ?s0 = Inr s1"
      "compressionProgress s1 ''b1'' = Some ?e1"
    by (simp add: imagesRequest_def initial_def compress_def on_message_def Suc_1 [unfolded One_nat_def])
  have f: "req_files imagesRequest = Some [(''a.png'', [1, 2, 3]), (''c.jpg'', [5, 6])]"
    "[(''a.png'', [1, 2, 3 :: 8 word]), (''c.jpg'', [5, 6])] \<noteq> []"
    by (simp_all add: imagesRequest_def)
  have m: "batchMessages ''b1'' ?evs
             @ [CompleteMsg ''/app/temp_compressed/compressed_images_b1.zip'' ''compressed_images_b1.zip'']
           = signals (w_trace (compressAndZip sampleCodec envOk (workerDataOf imagesRequest ''b1'')
                        (disk (snd (compress imagesRequest ''b1'' initial)))))"
    by code_simp
  have ns: "\<forall>x \<in> set ?evs. \<not> submits ''b1'' x"
    by simp
  have pc: "progressPercent 2 (Suc (Suc 0)) = Some 100" by code_simp
  from completed_monotone_and_bounded [OF f m ns s']
  have "progress ''b1'' s' = JsonProgress (Some 100) Processing 2 2"
    by (simp add: pc)
  with s' s1 show ?thesis by blast
qed

section \<open>Status of a batch\<close>

lemma track_append: "track st (xs @ ys) = track (track st xs) ys"
  by (induction st xs rule: track.induct) simp_all

lemma track_progress: "track st (map (Message b) (map ProgressMsg ks)) = st"
  by (induction ks) simp_all

lemma workerEvents_append: "workerEvents b (xs @ ys) = workerEvents b xs @ workerEvents b ys"
  by (simp add: workerEvents_def)

lemma step_status:
  assumes "step ev s = Inr s1" and "compressionProgress s b = Some e0" and "\<not> submits b ev"
  shows "compressionProgress s1 b = None
         \<or> (\<exists>e1. compressionProgress s1 b = Some e1 \<and> status e1 = track (status e0) (workerEvents b [ev]))"
proof (cases ev)
  case (Compress req b')
  with assms show ?thesis
    by (auto simp: workerEvents_def compress_def split: option.splits if_splits)
next
  case (Message b' m)
  with assms show ?thesis
    by (cases m) (auto simp: workerEvents_def on_message_def setStatus_def cleanupBatchUploadedFiles_def
          split: option.splits if_splits)
next
  case (WorkerError b')
  with assms show ?thesis
    by (auto simp: workerEvents_def on_error_def setStatus_def cleanupBatchUploadedFiles_def
          split: option.splits if_splits)
next
  case (Exit b' code)
  with assms show ?thesis
    by (auto simp: workerEvents_def on_exit_def setStatus_def cleanupBatchUploadedFiles_def Let_def
          split: option.splits if_splits)
next
  case (GetProgress b')
  with assms show ?thesis by (auto simp: workerEvents_def)
next
  case (Download b')
  with assms show ?thesis
    by (auto simp: workerEvents_def download_def Let_def split: option.splits if_splits)
next
  case (Cleanup b')
  with assms show ?thesis
    by (auto simp: workerEvents_def cleanup_def cleanupBatchUploadedFiles_def Let_def split: option.splits if_splits)
next
  case (WorkerDisk d)
  with assms show ?thesis by (auto simp: workerEvents_def)
qed

lemma run_track:
  assumes "run evs s = Inr s'" and "compressionProgress s b = Some e0"
    and "\<forall>x \<in> set evs. \<not> submits b x" and "compressionProgress s' b = Some e"
  shows "status e = track (status e0) (workerEvents b evs)"
  using assms
proof (induction evs arbitrary: s e0)
  case Nil
  then show ?case by (simp add: workerEvents_def)
next
  case (Cons ev evs)
  from Cons.prems(1) obtain s1 where s1: "step ev s = Inr s1" and r: "run evs s1 = Inr s'"
    by (auto split: sum.splits)
  have ns: "\<forall>x \<in> set evs. \<not> submits b x" and nsev: "\<not> submits b ev"
    using Cons.prems(3) by simp_all
  from step_status [OF s1 Cons.prems(2) nsev]
  consider (gone) "compressionProgress s1 b = None"
    | (kept) e1 where "compressionProgress s1 b = Some e1" "status e1 = track (status e0) (workerEvents b [ev])"
    by auto
  then show ?case
  proof cases
    case gone
    from run_absent [OF r gone ns] Cons.prems(4) show ?thesis by simp
  next
    case kept
    have "workerEvents b (ev # evs) = workerEvents b [ev] @ workerEvents b evs"
      by (simp add: workerEvents_def)
    with Cons.IH [OF r kept(1) ns Cons.prems(4)] kept(2) show ?thesis
      by (simp add: track_append)
  qed
qed

text \<open>What the host receives from a run: progress messages, and then one of four
  endings.\<close>

lemma hostEvents_shape:
  "\<exists>ks T. hostEvents b (compressAndZip sharp ev wd d) = map (Message b) (map ProgressMsg ks) @ T
     \<and> (T = [Exit b 0] \<or> (\<exists>zp zn. T = [Message b (CompleteMsg zp zn), Exit b 0])
        \<or> (\<exists>e. T = [Message b (ErrorMsg e), Exit b 0]) \<or> T = [WorkerError b, Exit b 1])"
proof (cases "openThrows ev")
  case (Some e)
  have "hostEvents b (compressAndZip sharp ev wd d) = map (Message b) (map ProgressMsg []) @ [Message b (ErrorMsg e), Exit b 0]"
    by (simp add: hostEvents_def compressAndZip_threw [OF Some])
  then show ?thesis by blast
next
  case None
  let ?zn = "zipNameOf (wd_zipFolderName wd) (wd_batchId wd)"
  let ?zp = "path_join tempCompressedDir ?zn"
  from compressAndZip_trace [OF None, of wd sharp d] obtain es k where
    h: "signals es = map ProgressMsg [1 ..< Suc k]"
      "w_trace (compressAndZip sharp ev wd d)
        = CreateWriteStream ?zp # es @ (if UncaughtException \<in> set es then [] else ending ev ?zp ?zn)"
      "w_dead (compressAndZip sharp ev wd d) \<longleftrightarrow>
                 UncaughtException \<in> set es \<or> (finalizeRejects ev = None \<and> afterFinalize ev = LateError)"
    by blast
  let ?P = "map (Message b) (map ProgressMsg [1 ..< Suc k])"
  show ?thesis
  proof (cases "UncaughtException \<in> set es")
    case True
    have "hostEvents b (compressAndZip sharp ev wd d) = ?P @ [WorkerError b, Exit b 1]"
      using True h by (simp add: hostEvents_def del: upt_Suc)
    then show ?thesis by blast
  next
    case False
    show ?thesis
    proof (cases "finalizeRejects ev")
      case (Some e)
      have "hostEvents b (compressAndZip sharp ev wd d) = ?P @ [Message b (ErrorMsg e), Exit b 0]"
        using False Some h by (simp add: hostEvents_def signals_append signals_ending del: upt_Suc)
      then show ?thesis by blast
    next
      case None
      show ?thesis
      proof (cases "afterFinalize ev")
        case Closes
        have "hostEvents b (compressAndZip sharp ev wd d) = ?P @ [Message b (CompleteMsg ?zp ?zn), Exit b 0]"
          using False None Closes h by (simp add: hostEvents_def signals_append signals_ending del: upt_Suc)
        then show ?thesis by blast
      next
        case LateError
        have "hostEvents b (compressAndZip sharp ev wd d) = ?P @ [WorkerError b, Exit b 1]"
          using False None LateError h by (simp add: hostEvents_def signals_append signals_ending del: upt_Suc)
        then show ?thesis by blast
      next
        case Drains
        have "hostEvents b (compressAndZip sharp ev wd d) = ?P @ [Exit b 0]"
          using False None Drains h by (simp add: hostEvents_def signals_append signals_ending del: upt_Suc)
        then show ?thesis by blast
      qed
    qed
  qed
qed

lemma track_prefix_of_progress:
  assumes "xs @ us = map (Message b) (map ProgressMsg ks)"
  shows "track st xs = st"
proof -
  from assms have "xs = take (length xs) (map (Message b) (map ProgressMsg ks))"
    by (metis append_eq_conv_conj)
  then have "xs = map (Message b) (map ProgressMsg (take (length xs) ks))"
    by (simp add: take_map)
  then show ?thesis by (metis track_progress)
qed

lemma terminal_kept:
  assumes "xs @ ys @ rest = map (Message b) (map ProgressMsg ks) @ T"
    and "T = [Exit b 0] \<or> (\<exists>zp zn. T = [Message b (CompleteMsg zp zn), Exit b 0])
        \<or> (\<exists>e. T = [Message b (ErrorMsg e), Exit b 0]) \<or> T = [WorkerError b, Exit b 1]"
    and "track Processing xs \<noteq> Processing"
  shows "track (track Processing xs) ys = track Processing xs"
proof -
  from assms(1) obtain us where
    "(xs = map (Message b) (map ProgressMsg ks) @ us \<and> us @ (ys @ rest) = T)
     \<or> (xs @ us = map (Message b) (map ProgressMsg ks) \<and> ys @ rest = us @ T)"
    unfolding append_eq_append_conv2 by blast
  then consider (past) "xs = map (Message b) (map ProgressMsg ks) @ us" "us @ (ys @ rest) = T"
    | (within) "xs @ us = map (Message b) (map ProgressMsg ks)"
    by blast
  then show ?thesis
  proof cases
    case within
    from track_prefix_of_progress [OF this] assms(3) show ?thesis by simp
  next
    case past
    have x: "track Processing xs = track Processing us"
      by (simp only: past(1) track_append track_progress)
    with assms(3) have nz: "track Processing us \<noteq> Processing" by simp
    from assms(2) consider (a) "T = [Exit b 0]"
      | (b) zp zn where "T = [Message b (CompleteMsg zp zn), Exit b 0]"
      | (c) e where "T = [Message b (ErrorMsg e), Exit b 0]"
      | (d) "T = [WorkerError b, Exit b 1]"
      by blast
    then show ?thesis
    proof cases
      case a
      with past(2) nz show ?thesis
        unfolding x by (auto simp: append_eq_Cons_conv Cons_eq_append_conv)
    next
      case b
      with past(2) nz show ?thesis
        unfolding x by (auto simp: append_eq_Cons_conv Cons_eq_append_conv)
    next
      case c
      with past(2) nz show ?thesis
        unfolding x by (auto simp: append_eq_Cons_conv Cons_eq_append_conv)
    next
      case d
      with past(2) nz show ?thesis
        unfolding x by (auto simp: append_eq_Cons_conv Cons_eq_append_conv)
    qed
  qed
qed

lemma track_decisive: "track st (decisive evs) = track st evs"
  unfolding decisive_def by (induction st evs rule: track.induct) simp_all

lemma decisive_append: "decisive (xs @ ys) = decisive xs @ decisive ys"
  by (simp add: decisive_def)

lemma decisive_progress: "decisive (map (Message b) (map ProgressMsg ks)) = []"
  by (induction ks) (simp_all add: decisive_def)

text \<open>
  C3. Take a batch submitted with a non-empty list of files under an identifier \<open>b\<close>, and
  events of the host, in two parts, among which the events of the worker of \<open>b\<close> other than
  progress messages are, in order, an initial part of what a run of that worker sends (a
  complete or error message, the error event if the thread ended by an uncaught exception,
  the exit), and in which \<open>b\<close> is not submitted again; progress messages may arrive at any
  time, also late, and requests and events of other batches may occur anywhere. If the
  status recorded after the first part is Complete, Error or Failed, and the entry still
  exists after the second part, the status is the same. In every state, a progress
  message leaves the status of an entry as it is, and a worker exit records Failed exactly
  when the code is not zero and the status is not Error, and changes nothing otherwise.
\<close>

theorem terminal_status_is_kept:
  assumes "req_files req = Some ups" and "ups \<noteq> []"
    and "decisive (workerEvents b (evs1 @ evs2)) @ rest
           = decisive (hostEvents b (compressAndZip sharp ev (workerDataOf req b) d))"
    and "\<forall>x \<in> set (evs1 @ evs2). \<not> submits b x"
    and "run evs1 (snd (compress req b s)) = Inr s1" and "compressionProgress s1 b = Some e1"
    and "status e1 \<noteq> Processing"
    and "run evs2 s1 = Inr s2" and "compressionProgress s2 b = Some e2"
  shows "status e2 = status e1
         \<and> (compressionProgress s0 b0 = Some e0 \<longrightarrow>
              statusOf b0 (on_message b0 (ProgressMsg c) s0) = Some (status e0)
              \<and> statusOf b0 (Inr (on_exit b0 code s0))
                  = Some (if code \<noteq> 0 \<and> status e0 \<noteq> Error then Failed else status e0))"
proof -
  let ?e = "\<lparr>total = length ups, completed = 0, status = Processing,
             files = map fst ups, zipName = None\<rparr>"
  have e: "compressionProgress (snd (compress req b s)) b = Some ?e"
    by (rule compress_creates [OF assms(1,2)])
  have n1: "\<forall>x \<in> set evs1. \<not> submits b x" and n2: "\<forall>x \<in> set evs2. \<not> submits b x"
    using assms(4) by simp_all
  from run_track [OF assms(5) e n1 assms(6)]
  have t1: "status e1 = track Processing (decisive (workerEvents b evs1))"
    by (simp add: track_decisive)
  from run_track [OF assms(8) assms(6) n2 assms(9)]
  have t2: "status e2 = track (status e1) (decisive (workerEvents b evs2))"
    by (simp add: track_decisive)
  from hostEvents_shape [of b sharp ev "workerDataOf req b" d] obtain ks T where
    h: "hostEvents b (compressAndZip sharp ev (workerDataOf req b) d)
          = map (Message b) (map ProgressMsg ks) @ T"
      "T = [Exit b 0] \<or> (\<exists>zp zn. T = [Message b (CompleteMsg zp zn), Exit b 0])
        \<or> (\<exists>e. T = [Message b (ErrorMsg e), Exit b 0]) \<or> T = [WorkerError b, Exit b 1]"
    by blast
  from h(2) have dT: "decisive T = T"
    by (auto simp: decisive_def)
  have dH: "decisive (hostEvents b (compressAndZip sharp ev (workerDataOf req b) d)) = T"
    by (simp only: h(1) decisive_append decisive_progress dT append_Nil)
  have "decisive (workerEvents b evs1) @ decisive (workerEvents b evs2) @ rest
          = map (Message b) (map ProgressMsg []) @ T"
    using assms(3) by (simp add: dH workerEvents_append decisive_append)
  from terminal_kept [OF this h(2)] assms(7) t1 t2 have a: "status e2 = status e1"
    by simp
  have b: "compressionProgress s0 b0 = Some e0 \<longrightarrow>
              statusOf b0 (on_message b0 (ProgressMsg c) s0) = Some (status e0)
              \<and> statusOf b0 (Inr (on_exit b0 code s0))
                  = Some (if code \<noteq> 0 \<and> status e0 \<noteq> Error then Failed else status e0)"
    by (auto simp: statusOf_def on_message_def on_exit_def setStatus_def cleanupBatchUploadedFiles_def Let_def)
  from a b show ?thesis by blast
qed

text \<open>
  Two images, all handled: after the complete message the status is Complete, and stays so
  over a poll and the exit of the worker. One file whose read stream fails: the worker
  posts its progress and ends by an uncaught exception; after its error event the status
  is Error, and stays so over the progress message, which arrives late, and over the exit
  with code 1.
\<close>

theorem terminal_status_is_kept_witness:
  "(\<exists>s1 s2. run [Message ''b1'' (ProgressMsg 1), Message ''b1'' (ProgressMsg 2),
                 Message ''b1'' (CompleteMsg ''/app/temp_compressed/compressed_images_b1.zip''
                                   ''compressed_images_b1.zip'')]
               (snd (compress imagesRequest ''b1'' initial)) = Inr s1
        \<and> map_option status (compressionProgress s1 ''b1'') = Some Complete
        \<and> run [GetProgress ''b1'', Exit ''b1'' 0] s1 = Inr s2
        \<and> map_option status (compressionProgress s2 ''b1'') = Some Complete)
   \<and> (\<exists>s1 s2. run [WorkerError ''b1''] (snd (compress textRequest ''b1'' initial)) = Inr s1
        \<and> map_option status (compressionProgress s1 ''b1'') = Some Error
        \<and> run [Message ''b1'' (ProgressMsg 1), Exit ''b1'' 1] s1 = Inr s2
        \<and> map_option status (compressionProgress s2 ''b1'') = Some Error
        \<and> statusOf ''b1'' (on_message ''b1'' (ProgressMsg 1) s1) = Some Error
        \<and> statusOf ''b1'' (Inr (on_exit ''b1'' 1 s1)) = Some Error)"
proof -
  let ?zp = "''/app/temp_compressed/compressed_images_b1.zip''"
  let ?zn = "''compressed_images_b1.zip''"
  let ?evs1 = "[Message ''b1'' (ProgressMsg 1), Message ''b1'' (ProgressMsg 2),
                Message ''b1'' (CompleteMsg ?zp ?zn)]"
  let ?evs2 = "[GetProgress ''b1'', Exit ''b1'' 0]"
  let ?e1 = "\<lparr>total = 2, completed = 2, status = Complete,
              files = [''a.png'', ''c.jpg''], zipName = Some ?zn\<rparr>"
  let ?s0 = "snd (compress imagesRequest ''b1'' initial)"
  obtain s1 where s1: "run ?evs1 ?s0 = Inr s1" "compressionProgress s1 ''b1'' = Some ?e1"
    by (simp add: imagesRequest_def initial_def compress_def on_message_def Suc_1 [unfolded One_nat_def])
  obtain s2 where s2: "run ?evs2 s1 = Inr s2" "compressionProgress s2 ''b1'' = Some ?e1"
    by (simp add: s1(2) on_exit_def Let_def)
  have f: "req_files imagesRequest = Some [(''a.png'', [1, 2, 3]), (''c.jpg'', [5, 6])]"
    "[(''a.png'', [1, 2, 3 :: 8 word]), (''c.jpg'', [5, 6])] \<noteq> []"
    by (simp_all add: imagesRequest_def)
  have r: "signals (w_trace (compressAndZip sampleCodec envOk (workerDataOf imagesRequest ''b1'')
                        (disk (snd (compress imagesRequest ''b1'' initial)))))
             = [ProgressMsg 1, ProgressMsg 2, CompleteMsg ?zp ?zn]"
    "\<not> w_dead (compressAndZip sampleCodec envOk (workerDataOf imagesRequest ''b1'')
                        (disk (snd (compress imagesRequest ''b1'' initial))))"
    by code_simp+
  have m: "decisive (workerEvents ''b1'' (?evs1 @ ?evs2)) @ []
           = decisive (hostEvents ''b1'' (compressAndZip sampleCodec envOk (workerDataOf imagesRequest ''b1'')
                        (disk (snd (compress imagesRequest ''b1'' initial)))))"
    by (simp add: hostEvents_def r workerEvents_def decisive_def)
  have ns: "\<forall>x \<in> set (?evs1 @ ?evs2). \<not> submits ''b1'' x"
    by simp
  have t: "status ?e1 \<noteq> Processing" by simp
  note A = terminal_status_is_kept [OF f m ns s1 t s2]
  from A have "status ?e1 = status ?e1" by blast
  with s1 s2 have a: "\<exists>s1 s2. run ?evs1 ?s0 = Inr s1
        \<and> map_option status (compressionProgress s1 ''b1'') = Some Complete
        \<and> run ?evs2 s1 = Inr s2
        \<and> map_option status (compressionProgress s2 ''b1'') = Some Complete"
    by auto
  let ?fvs1 = "[WorkerError ''b1'']"
  let ?fvs2 = "[Message ''b1'' (ProgressMsg 1), Exit ''b1'' 1]"
  let ?g1 = "\<lparr>total = 1, completed = 0, status = Error, files = [''b.txt''], zipName = None\<rparr>"
  let ?g2 = "\<lparr>total = 1, completed = 1, status = Error, files = [''b.txt''], zipName = None\<rparr>"
  let ?t0 = "snd (compress textRequest ''b1'' initial)"
  obtain t1 where t1: "run ?fvs1 ?t0 = Inr t1" "compressionProgress t1 ''b1'' = Some ?g1"
    by (simp add: textRequest_def initial_def compress_def on_error_def setStatus_def
          cleanupBatchUploadedFiles_def)
  obtain t2 where t2: "run ?fvs2 t1 = Inr t2" "compressionProgress t2 ''b1'' = Some ?g2"
    by (simp add: t1(2) on_message_def on_exit_def Let_def)
  have g: "req_files textRequest = Some [(''b.txt'', [4])]" "[(''b.txt'', [4 :: 8 word])] \<noteq> []"
    by (simp_all add: textRequest_def)
  have r': "signals (w_trace (compressAndZip sampleCodec envStreamFails (workerDataOf textRequest ''b1'')
                        (disk (snd (compress textRequest ''b1'' initial)))))
             = [ProgressMsg 1]"
    "w_dead (compressAndZip sampleCodec envStreamFails (workerDataOf textRequest ''b1'')
                        (disk (snd (compress textRequest ''b1'' initial))))"
    by code_simp+
  have m': "decisive (workerEvents ''b1'' (?fvs1 @ ?fvs2)) @ []
           = decisive (hostEvents ''b1'' (compressAndZip sampleCodec envStreamFails (workerDataOf textRequest ''b1'')
                        (disk (snd (compress textRequest ''b1'' initial)))))"
    by (simp add: hostEvents_def r' workerEvents_def decisive_def)
  have ns': "\<forall>x \<in> set (?fvs1 @ ?fvs2). \<not> submits ''b1'' x"
    by simp
  have t': "status ?g1 \<noteq> Processing" by simp
  note B = terminal_status_is_kept [OF g m' ns' t1 t' t2, where ?s0.0 = t1 and ?b0.0 = "''b1''"
             and ?e0.0 = ?g1 and c = 1 and code = 1]
  from B have k: "status ?g2 = status ?g1" by blast
  from B t1(2) have "statusOf ''b1'' (on_message ''b1'' (ProgressMsg 1) t1) = Some (status ?g1)
        \<and> statusOf ''b1'' (Inr (on_exit ''b1'' 1 t1))
            = Some (if (1::int) \<noteq> 0 \<and> status ?g1 \<noteq> Error then Failed else status ?g1)"
    by blast
  then have "statusOf ''b1'' (on_message ''b1'' (ProgressMsg 1) t1) = Some Error
        \<and> statusOf ''b1'' (Inr (on_exit ''b1'' 1 t1)) = Some Error"
    by simp
  with t1 t2 k have b: "\<exists>s1 s2. run ?fvs1 ?t0 = Inr s1
        \<and> map_option status (compressionProgress s1 ''b1'') = Some Error
        \<and> run ?fvs2 s1 = Inr s2
        \<and> map_option status (compressionProgress s2 ''b1'') = Some Error
        \<and> statusOf ''b1'' (on_message ''b1'' (ProgressMsg 1) s1) = Some Error
        \<and> statusOf ''b1'' (Inr (on_exit ''b1'' 1 s1)) = Some Error"
    by auto
  from a b show ?thesis by blast
qed

section \<open>Files that cannot be read or transformed\<close>

text \<open>
  C2 fails on the code: when the transform of an image fails, line 53 throws and the
  \<^verbatim>\<open>catch\<close> of line 69 only logs, although the warning of line 51 announces that the file is
  included as it is. For a batch of the one file \<^verbatim>\<open>a.png\<close> and a codec that rejects, nothing
  is appended: the archive is finalized empty, and the batch completes.
\<close>

theorem failed_transform_drops_file:
  "shouldCompress ''a.png''
   \<and> disk (snd (compress requestA ''b1'' initial)) ''/app/uploads/a.png'' = Some (Bytes [1, 2, 3])
   \<and> failingCodec (wd_settings (workerDataOf requestA ''b1'')) (Bytes [1, 2, 3]) = None
   \<and> w_trace (compressAndZip failingCodec envOk (workerDataOf requestA ''b1'')
                (disk (snd (compress requestA ''b1'' initial))))
       = [CreateWriteStream ''/app/temp_compressed/compressed_images_b1.zip'',
          ConsoleWarn ''a.png'', ConsoleError ''a.png'',
          PostMessage (ProgressMsg 1), Unlink ''/app/uploads/a.png'',
          ArchiveFinalize, OutputClose,
          PostMessage (CompleteMsg ''/app/temp_compressed/compressed_images_b1.zip''
                         ''compressed_images_b1.zip'')]
   \<and> w_disk (compressAndZip failingCodec envOk (workerDataOf requestA ''b1'')
               (disk (snd (compress requestA ''b1'' initial))))
         ''/app/temp_compressed/compressed_images_b1.zip''
       = Some (Zip [] True)"
  by code_simp

text \<open>
  C6 fails on the code for files that are not images. Such a file is handed to the
  archive as a read stream (lines 64 to 66), and a stream that cannot open its file
  reports that later, by an \<^verbatim>\<open>error\<close> event that nothing listens to, not by an exception
  in the \<^verbatim>\<open>try\<close>: the \<^verbatim>\<open>catch\<close> of line 69, whose comment says that the file is skipped if
  streaming or reading fails, is never entered. The file is counted and its progress
  posted, and then the thread ends by an uncaught exception: nothing is finalized, no
  complete message is posted, and the batch ends with status Error. This happens for one
  text file whose stream fails to open, and, with nothing failing in the environment, for
  two files of the same name, the second of which is gone when its stream is opened.
\<close>

theorem unreadable_file_ends_worker:
  "\<not> shouldCompress ''b.txt''
   \<and> w_trace (compressAndZip sampleCodec envStreamFails (workerDataOf textRequest ''b1'')
                (disk (snd (compress textRequest ''b1'' initial))))
       = [CreateWriteStream ''/app/temp_compressed/compressed_images_b1.zip'',
          CreateReadStream ''/app/uploads/b.txt'',
          PostMessage (ProgressMsg 1), Unlink ''/app/uploads/b.txt'', UncaughtException]
   \<and> w_dead (compressAndZip sampleCodec envStreamFails (workerDataOf textRequest ''b1'')
                (disk (snd (compress textRequest ''b1'' initial))))
   \<and> w_trace (compressAndZip sampleCodec envOk (workerDataOf sameNameRequest ''b1'')
                (disk (snd (compress sameNameRequest ''b1'' initial))))
       = [CreateWriteStream ''/app/temp_compressed/compressed_images_b1.zip'',
          CreateReadStream ''/app/uploads/b.txt'', ArchiveAppend ''b.txt'' (Bytes [5]),
          PostMessage (ProgressMsg 1), Unlink ''/app/uploads/b.txt'',
          CreateReadStream ''/app/uploads/b.txt'',
          PostMessage (ProgressMsg 2), ConsoleError ''/app/uploads/b.txt'', UncaughtException]
   \<and> w_dead (compressAndZip sampleCodec envOk (workerDataOf sameNameRequest ''b1'')
                (disk (snd (compress sameNameRequest ''b1'' initial))))
   \<and> w_disk (compressAndZip sampleCodec envOk (workerDataOf sameNameRequest ''b1'')
                (disk (snd (compress sameNameRequest ''b1'' initial))))
         ''/app/temp_compressed/compressed_images_b1.zip''
       = Some (Zip [(''b.txt'', Bytes [5])] False)
   \<and> statusOf ''b1'' (run [Message ''b1'' (ProgressMsg 1), Message ''b1'' (ProgressMsg 2),
                           WorkerError ''b1'', Exit ''b1'' 1]
                        (snd (compress sameNameRequest ''b1'' initial)))
       = Some Error"
  by code_simp

section \<open>Errors outside the loop\<close>

text \<open>
  C4 fails on the code: the output stream of line 27 reports a failure to open the
  archive file later, by an \<^verbatim>\<open>error\<close> event that nothing listens to, and the listener of
  lines 86 to 88 throws from an event handler; neither exception is thrown inside the
  \<^verbatim>\<open>try\<close>, so the \<^verbatim>\<open>catch\<close> of line 90 posts no error message for them. When the archive
  cannot be opened, or the archive reports an error after finalizing, the thread ends by
  an uncaught exception and has posted no error message.
\<close>

theorem archive_failure_posts_no_error:
  "openFails envOpenFails
   \<and> w_trace (compressAndZip sampleCodec envOpenFails (workerDataOf imagesRequest ''b1'')
                (disk (snd (compress imagesRequest ''b1'' initial))))
       = [CreateWriteStream ''/app/temp_compressed/compressed_images_b1.zip'', UncaughtException]
   \<and> signals (w_trace (compressAndZip sampleCodec envOpenFails (workerDataOf imagesRequest ''b1'')
                (disk (snd (compress imagesRequest ''b1'' initial))))) = []
   \<and> w_dead (compressAndZip sampleCodec envOpenFails (workerDataOf imagesRequest ''b1'')
                (disk (snd (compress imagesRequest ''b1'' initial))))
   \<and> w_trace (compressAndZip sampleCodec (envOk\<lparr>afterFinalize := LateError\<rparr>)
                (workerDataOf imagesRequest ''b1'') (disk (snd (compress imagesRequest ''b1'' initial))))
       = [CreateWriteStream ''/app/temp_compressed/compressed_images_b1.zip'',
          ArchiveAppend ''a.webp'' (Bytes [1]), PostMessage (ProgressMsg 1),
          Unlink ''/app/uploads/a.png'', ArchiveAppend ''c.webp'' (Bytes [5]),
          PostMessage (ProgressMsg 2), Unlink ''/app/uploads/c.jpg'',
          ArchiveFinalize, UncaughtException]
   \<and> signals (w_trace (compressAndZip sampleCodec (envOk\<lparr>afterFinalize := LateError\<rparr>)
                (workerDataOf imagesRequest ''b1'') (disk (snd (compress imagesRequest ''b1'' initial)))))
       = [ProgressMsg 1, ProgressMsg 2]"
  by code_simp

section \<open>Cleanup of a batch in progress\<close>

lemma unlinkAll_frame:
  "p \<notin> (\<lambda>f. path_join uploadDir f) ` set fs \<Longrightarrow> unlinkAll fs d p = d p"
  by (induction fs arbitrary: d) auto

text \<open>As long as no archive name is recorded in the entry, which is the case until the
  complete signal arrives, the cleanup removes nothing but the uploads of the batch.\<close>

lemma cleanup_without_name_keeps_archives:
  assumes "compressionProgress s b = Some e" and "zipName e = None"
    and "p \<notin> (\<lambda>f. path_join uploadDir f) ` set (files e)"
  shows "disk (snd (cleanup b s)) p = disk s p"
  using assms by (simp add: cleanup_def cleanupBatchUploadedFiles_def Let_def unlinkAll_frame)

text \<open>
  C1 fails on the code: \<^verbatim>\<open>POST /cleanup/:batchId\<close> deletes the archive only under the name
  recorded in the entry, and that name is recorded by the complete signal. For a batch in
  progress, whose worker has opened the archive and archived the first of two files, the
  cleanup drops the worker handle, deletes the remaining upload, removes the entry and
  answers with success, and the partial archive stays in the output directory.
\<close>

theorem cleanup_leaves_partial_archive:
  "map_option status (compressionProgress midBatch ''b1'') = Some Processing
   \<and> map_option zipName (compressionProgress midBatch ''b1'') = Some None
   \<and> ''b1'' \<in> batchWorkers midBatch
   \<and> disk midBatch ''/app/uploads/a.png'' = None
   \<and> disk midBatch ''/app/uploads/b.txt'' = Some (Bytes [4])
   \<and> disk midBatch ''/app/temp_compressed/compressed_images_b1.zip''
       = Some (Zip [(''a.webp'', Bytes [1])] False)
   \<and> fst (cleanup ''b1'' midBatch) = JsonSuccess
   \<and> compressionProgress (snd (cleanup ''b1'' midBatch)) ''b1'' = None
   \<and> ''b1'' \<notin> batchWorkers (snd (cleanup ''b1'' midBatch))
   \<and> disk (snd (cleanup ''b1'' midBatch)) ''/app/uploads/b.txt'' = None
   \<and> disk (snd (cleanup ''b1'' midBatch)) ''/app/temp_compressed/compressed_images_b1.zip''
       = Some (Zip [(''a.webp'', Bytes [1])] False)"
  by code_simp

section \<open>The name of the archive\<close>

lemma splitSlash_plain: "CHR ''/'' \<notin> set s \<Longrightarrow> splitSlash s = [s]"
  by (induction s) auto

lemma tempCompressedDir_value: "tempCompressedDir = ''/app/temp_compressed''"
  by code_simp


lemma path_join_plain:
  assumes "CHR ''/'' \<notin> set n" and "n \<noteq> []" and "n \<noteq> ''.''" and "n \<noteq> ''..''"
  shows "path_join tempCompressedDir n = tempCompressedDir @ ''/'' @ n"
proof -
  have s: "splitSlash (''/app/temp_compressed/'' @ n) = [] # [''app'', ''temp_compressed'', n]"
    using assms(1) by (simp add: splitSlash_plain)
  have l: "last (''/app/temp_compressed/'' @ n) = last n"
    using assms(2) by simp
  have ln: "last n \<noteq> CHR ''/''"
    using assms(1,2) by (metis last_in_set)
  have "normalize (''/app/temp_compressed/'' @ n) = ''/app/temp_compressed/'' @ n"
    unfolding normalize_def Let_def s l using assms(2,3,4) ln by simp
  with assms(2) show ?thesis
    by (simp add: path_join_def tempCompressedDir_value)
qed

lemma zip_name_plain:
  assumes "CHR ''/'' \<notin> set l"
  shows "path_join tempCompressedDir (l @ ''.zip'') = tempCompressedDir @ ''/'' @ l @ ''.zip''"
proof -
  have a: "CHR ''/'' \<notin> set (l @ ''.zip'')" using assms by simp
  have b: "l @ ''.zip'' \<noteq> []" by simp
  have "last (l @ ''.zip'') = CHR ''p''" by simp
  then have c: "l @ ''.zip'' \<noteq> ''.''" and d: "l @ ''.zip'' \<noteq> ''..''"
    by auto
  from path_join_plain [OF a b c d] show ?thesis by simp
qed

lemma signals_set: "m \<in> set (signals es) \<longleftrightarrow> PostMessage m \<in> set es"
  by (induction es rule: signals.induct) auto

lemma compressAndZip_names:
  shows "CreateWriteStream p \<in> set (w_trace (compressAndZip sharp ev wd d))
           \<Longrightarrow> p = path_join tempCompressedDir (zipNameOf (wd_zipFolderName wd) (wd_batchId wd))"
    and "CompleteMsg zp zn \<in> set (signals (w_trace (compressAndZip sharp ev wd d)))
           \<Longrightarrow> zn = zipNameOf (wd_zipFolderName wd) (wd_batchId wd) \<and> zp = path_join tempCompressedDir zn"
proof -
  let ?zn = "zipNameOf (wd_zipFolderName wd) (wd_batchId wd)"
  let ?zp = "path_join tempCompressedDir ?zn"
  have "(CreateWriteStream p \<in> set (w_trace (compressAndZip sharp ev wd d)) \<longrightarrow> p = ?zp)
     \<and> (PostMessage (CompleteMsg zp zn) \<in> set (w_trace (compressAndZip sharp ev wd d))
          \<longrightarrow> zn = ?zn \<and> zp = path_join tempCompressedDir zn)"
  proof (cases "openThrows ev")
    case (Some e)
    then show ?thesis by (simp add: compressAndZip_threw)
  next
    case None
    from compressAndZip_trace [OF None, of wd sharp d] obtain es where
      h: "\<forall>e \<in> set es. loopEvent e"
        "w_trace (compressAndZip sharp ev wd d)
          = CreateWriteStream ?zp # es @ (if UncaughtException \<in> set es then [] else ending ev ?zp ?zn)"
      by blast
    have a: "CreateWriteStream p \<notin> set es" "PostMessage (CompleteMsg zp zn) \<notin> set es"
      using h(1) by auto
    show ?thesis
      unfolding h(2) using a
      by (auto simp: ending_def split: option.splits closing.splits if_splits)
  qed
  then show "CreateWriteStream p \<in> set (w_trace (compressAndZip sharp ev wd d)) \<Longrightarrow> p = ?zp"
    and "CompleteMsg zp zn \<in> set (signals (w_trace (compressAndZip sharp ev wd d)))
           \<Longrightarrow> zn = ?zn \<and> zp = path_join tempCompressedDir zn"
    by (simp_all add: signals_set)
qed

text \<open>
  C8 (amended). The name of the archive is the supplied label followed by \<^verbatim>\<open>.zip\<close> when the
  label is not empty, and \<^verbatim>\<open>compressed_images_<batchId>.zip\<close> when the label is absent or
  empty; the label \<^verbatim>\<open>vacation\<close> gives \<^verbatim>\<open>vacation.zip\<close>. In every run, this is the name that a
  complete message reports, and the archive is created at, and reported with, the path
  that \<^verbatim>\<open>path.join\<close> makes of the output directory and the name. For a label without a
  slash, that path is the output directory, a slash, and the name.
\<close>

theorem archive_name_and_path:
  "zipNameOf None b = ''compressed_images_'' @ b @ ''.zip''
   \<and> zipNameOf (Some []) b = ''compressed_images_'' @ b @ ''.zip''
   \<and> (l \<noteq> [] \<longrightarrow> zipNameOf (Some l) b = l @ ''.zip'')
   \<and> zipNameOf (Some ''vacation'') b = ''vacation.zip''
   \<and> (CreateWriteStream p \<in> set (w_trace (compressAndZip sharp ev wd d)) \<longrightarrow>
        p = path_join tempCompressedDir (zipNameOf (wd_zipFolderName wd) (wd_batchId wd)))
   \<and> (CompleteMsg zp zn \<in> set (signals (w_trace (compressAndZip sharp ev wd d))) \<longrightarrow>
        zn = zipNameOf (wd_zipFolderName wd) (wd_batchId wd) \<and> zp = path_join tempCompressedDir zn)
   \<and> (l \<noteq> [] \<and> CHR ''/'' \<notin> set l \<longrightarrow>
        path_join tempCompressedDir (zipNameOf (Some l) b) = tempCompressedDir @ ''/'' @ l @ ''.zip'')"
proof -
  have a: "zipNameOf None b = ''compressed_images_'' @ b @ ''.zip''"
    "zipNameOf (Some []) b = ''compressed_images_'' @ b @ ''.zip''"
    "l \<noteq> [] \<longrightarrow> zipNameOf (Some l) b = l @ ''.zip''"
    "zipNameOf (Some ''vacation'') b = ''vacation.zip''"
    by (simp_all add: zipNameOf_def)
  have c: "l \<noteq> [] \<and> CHR ''/'' \<notin> set l \<longrightarrow>
        path_join tempCompressedDir (zipNameOf (Some l) b) = tempCompressedDir @ ''/'' @ l @ ''.zip''"
    using zip_name_plain [of l] by (simp add: zipNameOf_def)
  from a c compressAndZip_names(1) [where p = p and sharp = sharp and ev = ev and wd = wd and d = d]
    compressAndZip_names(2) [where zp = zp and zn = zn and sharp = sharp and ev = ev and wd = wd and d = d]
  show ?thesis by blast
qed

text \<open>
  Two images submitted with the label \<^verbatim>\<open>vacation\<close>: the archive is created at
  \<^verbatim>\<open>/app/temp_compressed/vacation.zip\<close>, and the complete message reports that path and the
  name \<^verbatim>\<open>vacation.zip\<close>.
\<close>

theorem archive_name_and_path_witness:
  "zipNameOf (Some ''vacation'') ''b1'' = ''vacation.zip''
   \<and> w_trace (compressAndZip sampleCodec envOk (workerDataOf vacationRequest ''b1'')
                (disk (snd (compress vacationRequest ''b1'' initial))))
       = [CreateWriteStream ''/app/temp_compressed/vacation.zip'',
          ArchiveAppend ''a.webp'' (Bytes [1]), PostMessage (ProgressMsg 1),
          Unlink ''/app/uploads/a.png'', ArchiveAppend ''c.webp'' (Bytes [5]),
          PostMessage (ProgressMsg 2), Unlink ''/app/uploads/c.jpg'',
          ArchiveFinalize, OutputClose,
          PostMessage (CompleteMsg ''/app/temp_compressed/vacation.zip'' ''vacation.zip'')]
   \<and> CompleteMsg ''/app/temp_compressed/vacation.zip'' ''vacation.zip''
         \<in> set (signals (w_trace (compressAndZip sampleCodec envOk (workerDataOf vacationRequest ''b1'')
                (disk (snd (compress vacationRequest ''b1'' initial))))))
   \<and> path_join tempCompressedDir (zipNameOf (wd_zipFolderName (workerDataOf vacationRequest ''b1'')) ''b1'')
       = ''/app/temp_compressed/vacation.zip''
   \<and> ''vacation.zip'' = zipNameOf (wd_zipFolderName (workerDataOf vacationRequest ''b1'')) ''b1''
   \<and> ''vacation'' \<noteq> [] \<and> CHR ''/'' \<notin> set ''vacation''
   \<and> path_join tempCompressedDir (zipNameOf (Some ''vacation'') ''b1'')
       = tempCompressedDir @ ''/'' @ ''vacation'' @ ''.zip''"
proof -
  let ?W = "compressAndZip sampleCodec envOk (workerDataOf vacationRequest ''b1'')
                (disk (snd (compress vacationRequest ''b1'' initial)))"
  let ?zp = "''/app/temp_compressed/vacation.zip''"
  have t: "w_trace ?W
       = [CreateWriteStream ?zp,
          ArchiveAppend ''a.webp'' (Bytes [1]), PostMessage (ProgressMsg 1),
          Unlink ''/app/uploads/a.png'', ArchiveAppend ''c.webp'' (Bytes [5]),
          PostMessage (ProgressMsg 2), Unlink ''/app/uploads/c.jpg'',
          ArchiveFinalize, OutputClose,
          PostMessage (CompleteMsg ?zp ''vacation.zip'')]"
    by code_simp
  have w: "wd_zipFolderName (workerDataOf vacationRequest ''b1'') = Some ''vacation''"
    "wd_batchId (workerDataOf vacationRequest ''b1'') = ''b1''"
    by (simp_all add: workerDataOf_def vacationRequest_def)
  have l: "''vacation'' \<noteq> []" "CHR ''/'' \<notin> set ''vacation''"
    by simp_all
  have c: "CreateWriteStream ?zp \<in> set (w_trace ?W)"
    "CompleteMsg ?zp ''vacation.zip'' \<in> set (signals (w_trace ?W))"
    by (simp_all add: t)
  note T = archive_name_and_path [where l = "''vacation''" and b = "''b1''" and p = ?zp
             and zp = ?zp and zn = "''vacation.zip''" and sharp = sampleCodec and ev = envOk
             and wd = "workerDataOf vacationRequest ''b1''"
             and d = "disk (snd (compress vacationRequest ''b1'' initial))"]
  from T l have n: "zipNameOf (Some ''vacation'') ''b1'' = ''vacation.zip''"
    by blast
  from T c have "?zp = path_join tempCompressedDir (zipNameOf (wd_zipFolderName (workerDataOf vacationRequest ''b1''))
                         (wd_batchId (workerDataOf vacationRequest ''b1'')))"
    by blast
  then have p: "path_join tempCompressedDir (zipNameOf (wd_zipFolderName (workerDataOf vacationRequest ''b1'')) ''b1'')
       = ?zp"
    by (simp add: w)
  from T c have "''vacation.zip'' = zipNameOf (wd_zipFolderName (workerDataOf vacationRequest ''b1''))
                         (wd_batchId (workerDataOf vacationRequest ''b1''))"
    by blast
  then have q: "''vacation.zip'' = zipNameOf (wd_zipFolderName (workerDataOf vacationRequest ''b1'')) ''b1''"
    by (simp only: w(2))
  from T l have r: "path_join tempCompressedDir (zipNameOf (Some ''vacation'') ''b1'')
       = tempCompressedDir @ ''/'' @ ''vacation'' @ ''.zip''"
    by blast
  from n t p l c(2) q r show ?thesis by blast
qed

text \<open>
  C8 as stated fails in two ways. A label that is supplied but empty does not give the
  name \<^verbatim>\<open>.zip\<close> but the default name. And the label is not sanitized: the label \<^verbatim>\<open>../x\<close>
  gives the name \<^verbatim>\<open>../x.zip\<close>, and the archive is written to \<^verbatim>\<open>/app/x.zip\<close>, outside the
  output directory \<^verbatim>\<open>/app/temp_compressed\<close>.
\<close>

theorem label_empty_or_path_counterexample:
  "zipNameOf (Some '''') ''b1'' = ''compressed_images_b1.zip''
   \<and> zipNameOf (Some '''') ''b1'' \<noteq> '''' @ ''.zip''
   \<and> req_zipFolderName dotsRequest = Some ''../x''
   \<and> tempCompressedDir = ''/app/temp_compressed''
   \<and> w_trace (compressAndZip sampleCodec envOk (workerDataOf dotsRequest ''b1'')
                (disk (snd (compress dotsRequest ''b1'' initial))))
       = [CreateWriteStream ''/app/x.zip'',
          ArchiveAppend ''a.webp'' (Bytes [1]), PostMessage (ProgressMsg 1),
          Unlink ''/app/uploads/a.png'', ArchiveAppend ''c.webp'' (Bytes [5]),
          PostMessage (ProgressMsg 2), Unlink ''/app/uploads/c.jpg'',
          ArchiveFinalize, OutputClose,
          PostMessage (CompleteMsg ''/app/x.zip'' ''../x.zip'')]
   \<and> w_disk (compressAndZip sampleCodec envOk (workerDataOf dotsRequest ''b1'')
                (disk (snd (compress dotsRequest ''b1'' initial)))) ''/app/x.zip''
       = Some (Zip [(''a.webp'', Bytes [1]), (''c.webp'', Bytes [5])] True)"
  by code_simp

section \<open>What a batch touches\<close>
































end
